theory Spec2Isabelle
  imports Main
begin

section \<open>Text\<close>

text \<open>
  A Python \<open>str\<close> is a sequence of Unicode code points; it is modelled as a list of
  natural numbers, one per code point, so that \<open>length\<close> counts what Python's \<open>len\<close>
  counts. The one exception is the URL given to \<open>extract_video_id\<close>, which is a HOL
  \<open>string\<close> (code points below 256): the checks that \<open>urllib.parse\<close> applies to a
  netloc outside that range depend on the Unicode normalisation tables.
\<close>

type_synonym ustr = "nat list"

abbreviation (input) ord :: "char \<Rightarrow> nat" where
  "ord c \<equiv> of_char c"

definition ustr_of :: "string \<Rightarrow> ustr" where
  "ustr_of s = map of_char s"

text \<open>\<open>str(n)\<close> for a non-negative integer.\<close>

fun str_nat :: "nat \<Rightarrow> ustr" where
  "str_nat n = (if n < 10 then [48 + n] else str_nat (n div 10) @ [48 + n mod 10])"

declare str_nat.simps [simp del]

text \<open>The code points that \<open>str.strip()\<close> removes (those with \<open>str.isspace()\<close>).\<close>

definition isspace :: "nat \<Rightarrow> bool" where
  "isspace c \<longleftrightarrow>
     (9 \<le> c \<and> c \<le> 13) \<or> (28 \<le> c \<and> c \<le> 32) \<or> c = 133 \<or> c = 160 \<or> c = 5760
     \<or> (8192 \<le> c \<and> c \<le> 8202) \<or> c = 8232 \<or> c = 8233 \<or> c = 8239 \<or> c = 8287
     \<or> c = 12288"

definition strip :: "ustr \<Rightarrow> ustr" where
  "strip s = rev (dropWhile isspace (rev (dropWhile isspace s)))"

text \<open>\<open>s.find(c)\<close> and \<open>s.rfind(c)\<close> for a one-character \<open>c\<close>: an index, or \<open>-1\<close>.\<close>

definition str_find :: "ustr \<Rightarrow> nat \<Rightarrow> int" where
  "str_find s c =
     (if c \<in> set s then int (length (takeWhile (\<lambda>x. x \<noteq> c) s)) else - 1)"

definition str_rfind :: "ustr \<Rightarrow> nat \<Rightarrow> int" where
  "str_rfind s c =
     (if c \<in> set s then int (length s) - 1 - int (length (takeWhile (\<lambda>x. x \<noteq> c) (rev s)))
      else - 1)"

text \<open>\<open>s[i:j]\<close> for indices that are not negative.\<close>

definition slice :: "ustr \<Rightarrow> int \<Rightarrow> int \<Rightarrow> ustr" where
  "slice s i j = take (nat j - nat i) (drop (nat i) s)"

text \<open>\<open>sep.join(parts)\<close>.\<close>

fun str_join :: "ustr \<Rightarrow> ustr list \<Rightarrow> ustr" where
  "str_join sep [] = []"
| "str_join sep [x] = x"
| "str_join sep (x # y # ys) = x @ sep @ str_join sep (y # ys)"

section \<open>Exceptions\<close>

text \<open>
  An exception is its class and its \<open>str()\<close>. Only subclasses of \<open>Exception\<close> are
  modelled; \<open>JSONDecodeError\<close> is the class that \<open>except json.JSONDecodeError\<close>
  selects, every class is caught by \<open>except Exception\<close>.
\<close>

datatype exn_class = JSONDecodeError | ValueError | RecursionError | IndexError | OtherException

datatype exn = Exn (exn_class: exn_class) (exn_str: ustr)

section \<open>The standard library: \<open>json.loads\<close>\<close>

text \<open>
  \<open>json.loads\<close> is CPython's decoder (version 3.11, with the C scanner) for a \<open>str\<close>
  argument and no hooks. A parsed \<open>float\<close> is kept as the literal it was read from
  (\<open>NaN\<close>, \<open>Infinity\<close> and \<open>-Infinity\<close> included); a \<open>dict\<close> is an association list
  in insertion order.
\<close>

datatype json =
    JNull
  | JBool bool
  | JInt int
  | JFloat ustr
  | JString ustr
  | JArray "json list"
  | JObject "(ustr \<times> json) list"

text \<open>
  What the scanner can raise: \<open>StopIteration(idx)\<close> (turned into ``Expecting value'' by
  \<open>raw_decode\<close>), a \<open>JSONDecodeError\<close> with its message and position, a
  \<open>RecursionError\<close> when containers nest deeper than the interpreter allows, and the
  \<open>ValueError\<close> of \<open>int()\<close> on a literal with more digits than
  \<open>sys.get_int_max_str_digits()\<close>.
\<close>

datatype jfail =
    StopIteration nat
  | Malformed ustr nat
  | TooDeep ustr
  | TooManyDigits nat

definition is_ws :: "nat \<Rightarrow> bool" where
  "is_ws c \<longleftrightarrow> c = 32 \<or> c = 9 \<or> c = 10 \<or> c = 13"

definition skip_ws :: "ustr \<Rightarrow> ustr" where
  "skip_ws cs = dropWhile is_ws cs"

definition is_digit :: "nat \<Rightarrow> bool" where
  "is_digit c \<longleftrightarrow> 48 \<le> c \<and> c \<le> 57"

definition hex_val :: "nat \<Rightarrow> nat option" where
  "hex_val c =
     (if 48 \<le> c \<and> c \<le> 57 then Some (c - 48)
      else if 97 \<le> c \<and> c \<le> 102 then Some (c - 87)
      else if 65 \<le> c \<and> c \<le> 70 then Some (c - 55)
      else None)"

fun hex4 :: "ustr \<Rightarrow> nat option" where
  "hex4 [a, b, c, d] =
     (case (hex_val a, hex_val b, hex_val c, hex_val d) of
        (Some x, Some y, Some z, Some w) \<Rightarrow> Some (((x * 16 + y) * 16 + z) * 16 + w)
      | _ \<Rightarrow> None)"
| "hex4 _ = None"

text \<open>The one-character escapes after a backslash.\<close>

definition BACKSLASH :: "nat \<Rightarrow> nat option" where
  "BACKSLASH e =
     (if e = 0x22 then Some 0x22
      else if e = 0x5C then Some 0x5C
      else if e = ord CHR ''/'' then Some (ord CHR ''/'')
      else if e = ord CHR ''b'' then Some 8
      else if e = ord CHR ''f'' then Some 12
      else if e = ord CHR ''n'' then Some 10
      else if e = ord CHR ''r'' then Some 13
      else if e = ord CHR ''t'' then Some 9
      else None)"

text \<open>
  The scanner works on the rest of the document; \<open>n\<close> is the document's length, so
  that \<open>pos n cs\<close> is the index at which the rest \<open>cs\<close> begins.
\<close>

definition pos :: "nat \<Rightarrow> ustr \<Rightarrow> nat" where
  "pos n cs = n - length cs"

text \<open>
  \<open>scanstring\<close>, entered after the opening quote (at index \<open>begin + 1\<close>). A
  \<open>\uXXXX\<close> escape needs a character after its four digits; a high surrogate followed
  by an escaped low surrogate is one code point.
\<close>

fun scanstring :: "nat \<Rightarrow> nat \<Rightarrow> ustr \<Rightarrow> ustr \<Rightarrow> jfail + ustr \<times> ustr" where
  "scanstring n begin acc [] =
     Inl (Malformed (ustr_of ''Unterminated string starting at'') begin)"
| "scanstring n begin acc (c # cs) =
     (if c = 0x22 then Inr (acc, cs)
      else if c = 0x5C then
        (case cs of
           [] \<Rightarrow> Inl (Malformed (ustr_of ''Unterminated string starting at'') begin)
         | e # cs' \<Rightarrow>
             if e = ord CHR ''u'' then
               (case (if length cs' \<le> 4 then None else hex4 (take 4 cs')) of
                  None \<Rightarrow>
                    Inl (Malformed (ustr_of ''Invalid '' @ [0x5C] @ ustr_of ''uXXXX escape'')
                           (pos n (e # cs')))
                | Some uni \<Rightarrow>
                    if 0xD800 \<le> uni \<and> uni \<le> 0xDBFF \<and> 10 < length cs'
                        \<and> take 2 (drop 4 cs') = [0x5C, ord CHR ''u''] then
                      (case hex4 (take 4 (drop 6 cs')) of
                         None \<Rightarrow>
                           Inl (Malformed (ustr_of ''Invalid '' @ [0x5C] @ ustr_of ''uXXXX escape'')
                                  (pos n (drop 5 cs')))
                       | Some uni2 \<Rightarrow>
                           if 0xDC00 \<le> uni2 \<and> uni2 \<le> 0xDFFF then
                             scanstring n begin
                               (acc @ [0x10000 + ((uni - 0xD800) * 1024 + (uni2 - 0xDC00))])
                               (drop 10 cs')
                           else scanstring n begin (acc @ [uni]) (drop 4 cs'))
                    else scanstring n begin (acc @ [uni]) (drop 4 cs'))
             else
               (case BACKSLASH e of
                  None \<Rightarrow>
                    Inl (Malformed (ustr_of ''Invalid '' @ [0x5C] @ ustr_of ''escape'')
                           (pos n (c # cs)))
                | Some ch \<Rightarrow> scanstring n begin (acc @ [ch]) cs'))
      else if c \<le> 0x1F then
        Inl (Malformed (ustr_of ''Invalid control character at'') (pos n (c # cs)))
      else scanstring n begin (acc @ [c]) cs)"

text \<open>
  The number syntax \<open>(-?(?:0|[1-9][0-9]*))(\.[0-9]+)?([eE][-+]?[0-9]+)?\<close>, part by
  part: each part returns what it matched and the rest.
\<close>

definition int_part :: "ustr \<Rightarrow> (ustr \<times> ustr) option" where
  "int_part r0 =
     (case r0 of
        [] \<Rightarrow> None
      | c # r1 \<Rightarrow>
          if \<not> is_digit c then None
          else if c = ord CHR ''0'' then Some ([c], r1)
          else Some (takeWhile is_digit r0, dropWhile is_digit r0))"

definition frac_part :: "ustr \<Rightarrow> ustr \<times> ustr" where
  "frac_part r2 =
     (if take 1 r2 = [ord CHR ''.''] \<and> list_ex is_digit (take 1 (drop 1 r2))
      then (ord CHR ''.'' # takeWhile is_digit (drop 1 r2), dropWhile is_digit (drop 1 r2))
      else ([], r2))"

definition exp_part :: "ustr \<Rightarrow> ustr \<times> ustr" where
  "exp_part r3 =
     (let sg = (if take 1 (drop 1 r3) = [ord CHR ''-''] \<or> take 1 (drop 1 r3) = [ord CHR ''+'']
                then take 1 (drop 1 r3) else []);
          r' = drop (1 + length sg) r3
      in if (take 1 r3 = [ord CHR ''e''] \<or> take 1 r3 = [ord CHR ''E''])
            \<and> list_ex is_digit (take 1 r')
         then (take 1 r3 @ sg @ takeWhile is_digit r', dropWhile is_digit r')
         else ([], r3))"

text \<open>The integer part with its sign, the fraction, the exponent and the rest.\<close>

definition match_number :: "ustr \<Rightarrow> (ustr \<times> ustr \<times> ustr \<times> ustr) option" where
  "match_number cs =
     (let sign = (if take 1 cs = [ord CHR ''-''] then [ord CHR ''-''] else []) in
      case int_part (drop (length sign) cs) of
        None \<Rightarrow> None
      | Some (ds, r2) \<Rightarrow>
          (case frac_part r2 of
             (frac, r3) \<Rightarrow>
               (case exp_part r3 of
                  (ex, r4) \<Rightarrow> Some (sign @ ds, frac, ex, r4))))"

definition parse_int :: "ustr \<Rightarrow> int" where
  "parse_int ds =
     (if take 1 ds = [ord CHR ''-'']
      then - foldl (\<lambda>a c. a * 10 + int (c - 48)) 0 (drop 1 ds)
      else foldl (\<lambda>a c. a * 10 + int (c - 48)) 0 ds)"

text \<open>
  The cases of \<open>scan_once\<close> that do not recurse: a string, a literal name, a number.
  \<open>mx\<close> is \<open>sys.get_int_max_str_digits()\<close> (\<open>0\<close>: no limit).
\<close>

definition scan_atom :: "nat \<Rightarrow> nat \<Rightarrow> ustr \<Rightarrow> jfail + json \<times> ustr" where
  "scan_atom mx n cs =
     (if take 1 cs = [0x22] then
        (case scanstring n (pos n cs) [] (drop 1 cs) of
           Inl e \<Rightarrow> Inl e
         | Inr (str, rest) \<Rightarrow> Inr (JString str, rest))
      else if take 4 cs = ustr_of ''null'' then Inr (JNull, drop 4 cs)
      else if take 4 cs = ustr_of ''true'' then Inr (JBool True, drop 4 cs)
      else if take 5 cs = ustr_of ''false'' then Inr (JBool False, drop 5 cs)
      else
        (case match_number cs of
           Some (integer, frac, ex, rest) \<Rightarrow>
             if frac \<noteq> [] \<or> ex \<noteq> [] then Inr (JFloat (integer @ frac @ ex), rest)
             else
               (let nd = length (filter is_digit integer) in
                if mx \<noteq> 0 \<and> mx < nd then Inl (TooManyDigits nd)
                else Inr (JInt (parse_int integer), rest))
         | None \<Rightarrow>
             if take 3 cs = ustr_of ''NaN'' then Inr (JFloat (ustr_of ''NaN''), drop 3 cs)
             else if take 8 cs = ustr_of ''Infinity'' then
               Inr (JFloat (ustr_of ''Infinity''), drop 8 cs)
             else if take 9 cs = ustr_of ''-Infinity'' then
               Inr (JFloat (ustr_of ''-Infinity''), drop 9 cs)
             else Inl (StopIteration (pos n cs))))"

text \<open>A member's key, the colon after it and the whitespace around the colon.\<close>

definition object_key :: "nat \<Rightarrow> ustr \<Rightarrow> jfail + ustr \<times> ustr" where
  "object_key n cs =
     (if take 1 cs \<noteq> [0x22] then
        Inl (Malformed (ustr_of ''Expecting property name enclosed in double quotes'') (pos n cs))
      else
        (case scanstring n (pos n cs) [] (drop 1 cs) of
           Inl e \<Rightarrow> Inl e
         | Inr (key, cs1) \<Rightarrow>
             (let cs2 = skip_ws cs1 in
              if take 1 cs2 \<noteq> [ord CHR '':''] then
                Inl (Malformed (ustr_of ''Expecting ':' delimiter'') (pos n cs2))
              else Inr (key, skip_ws (drop 1 cs2)))))"

text \<open>
  After a value: the closing bracket (\<open>True\<close>), or a comma and the whitespace after
  it (\<open>False\<close>).
\<close>

definition after_value :: "nat \<Rightarrow> nat \<Rightarrow> ustr \<Rightarrow> jfail + bool \<times> ustr" where
  "after_value n close cs =
     (let cs1 = skip_ws cs in
      if take 1 cs1 = [close] then Inr (True, drop 1 cs1)
      else if take 1 cs1 \<noteq> [ord CHR '',''] then
        Inl (Malformed (ustr_of ''Expecting ',' delimiter'') (pos n cs1))
      else Inr (False, skip_ws (drop 1 cs1)))"

text \<open>\<open>d[k] = v\<close> on a \<open>dict\<close>: a key already present keeps its place.\<close>

fun setitem :: "(ustr \<times> json) list \<Rightarrow> ustr \<Rightarrow> json \<Rightarrow> (ustr \<times> json) list" where
  "setitem [] k v = [(k, v)]"
| "setitem ((k', v') # kvs) k v =
     (if k' = k then (k', v) # kvs else (k', v') # setitem kvs k v)"

text \<open>
  \<open>scan_once\<close> with the loops of \<open>_parse_object\<close> and \<open>_parse_array\<close>; \<open>d\<close> is the
  number of containers that may still be entered before \<open>RecursionError\<close>.
\<close>

function scan_once :: "nat \<Rightarrow> nat \<Rightarrow> nat \<Rightarrow> ustr \<Rightarrow> jfail + json \<times> ustr"
  and parse_object ::
    "nat \<Rightarrow> nat \<Rightarrow> nat \<Rightarrow> (ustr \<times> json) list \<Rightarrow> ustr \<Rightarrow> jfail + json \<times> ustr"
  and parse_array :: "nat \<Rightarrow> nat \<Rightarrow> nat \<Rightarrow> json list \<Rightarrow> ustr \<Rightarrow> jfail + json \<times> ustr"
where
  "scan_once mx n d cs =
     (if take 1 cs = [ord CHR ''{''] then
        (if d = 0 then Inl (TooDeep (ustr_of ''object''))
         else
           (let cs1 = skip_ws (drop 1 cs) in
            if take 1 cs1 = [ord CHR ''}''] then Inr (JObject [], drop 1 cs1)
            else parse_object mx n (d - 1) [] cs1))
      else if take 1 cs = [ord CHR ''[''] then
        (if d = 0 then Inl (TooDeep (ustr_of ''array''))
         else
           (let cs1 = skip_ws (drop 1 cs) in
            if take 1 cs1 = [ord CHR '']''] then Inr (JArray [], drop 1 cs1)
            else parse_array mx n (d - 1) [] cs1))
      else scan_atom mx n cs)"
| "parse_object mx n d pairs cs =
     (case object_key n cs of
        Inl e \<Rightarrow> Inl e
      | Inr (key, cs1) \<Rightarrow>
          (case scan_once mx n d cs1 of
             Inl e \<Rightarrow> Inl e
           | Inr (val, cs2) \<Rightarrow>
               (case after_value n (ord CHR ''}'') cs2 of
                  Inl e \<Rightarrow> Inl e
                | Inr (closed, cs3) \<Rightarrow>
                    if closed then Inr (JObject (setitem pairs key val), cs3)
                    else parse_object mx n d (setitem pairs key val) cs3)))"
| "parse_array mx n d vals cs =
     (case scan_once mx n d cs of
        Inl e \<Rightarrow> Inl e
      | Inr (val, cs2) \<Rightarrow>
          (case after_value n (ord CHR '']'') cs2 of
             Inl e \<Rightarrow> Inl e
           | Inr (closed, cs3) \<Rightarrow>
               if closed then Inr (JArray (vals @ [val]), cs3)
               else parse_array mx n d (vals @ [val]) cs3))"
  by pat_completeness auto

text \<open>
  The scanner terminates because no step returns a longer rest than it was given; the
  next lemmas say so for each piece.
\<close>

lemma skip_ws_length: "length (skip_ws cs) \<le> length cs"
  by (simp add: skip_ws_def length_dropWhile_le)

lemma scanstring_length:
  "scanstring n b acc cs = Inr (s, r) \<Longrightarrow> length r < length cs"
proof (induction n b acc cs rule: scanstring.induct)
  case (1 n b acc)
  then show ?case by simp
next
  case (2 n b acc c cs)
  from "2.prems" show ?case
    by (simp split: if_splits list.splits option.splits del: hex4.simps)
       (use "2.IH" in \<open>force+\<close>)
qed

lemma dropWhile_drop_length: "length (dropWhile P (drop k xs)) \<le> length xs"
  using length_dropWhile_le [of P "drop k xs"] by simp

lemma int_part_length: "int_part r0 = Some (ds, r2) \<Longrightarrow> length r2 \<le> length r0"
  unfolding int_part_def
  by (auto split: list.splits if_splits simp: length_dropWhile_le le_SucI)

lemma frac_part_length: "frac_part r2 = (frac, r3) \<Longrightarrow> length r3 \<le> length r2"
  unfolding frac_part_def
  by (auto split: if_splits simp: dropWhile_drop_length)

lemma exp_part_length: "exp_part r3 = (ex, r4) \<Longrightarrow> length r4 \<le> length r3"
  unfolding exp_part_def
  by (auto split: if_splits simp: Let_def dropWhile_drop_length)

lemma match_number_length:
  assumes "match_number cs = Some (i, f, e, r)"
  shows "length r \<le> length cs"
proof -
  define sign where "sign = (if take 1 cs = [ord CHR ''-''] then [ord CHR ''-''] else [])"
  from assms obtain ds r2 frac r3 ex where
    i: "int_part (drop (length sign) cs) = Some (ds, r2)" and
    f: "frac_part r2 = (frac, r3)" and e: "exp_part r3 = (ex, r)"
    unfolding match_number_def sign_def [symmetric]
    by (auto simp: Let_def split: option.splits prod.splits)
  from int_part_length [OF i] frac_part_length [OF f] exp_part_length [OF e]
  show ?thesis by simp
qed

lemma scan_atom_length:
  "scan_atom mx n cs = Inr (v, r) \<Longrightarrow> length r \<le> length cs"
  unfolding scan_atom_def
  by (auto simp: Let_def split: if_splits sum.splits option.splits
           dest!: scanstring_length match_number_length)

lemma object_key_length:
  assumes "object_key n cs = Inr (k, r)"
  shows "length r < length cs"
proof -
  from assms obtain cs1 where s: "scanstring n (pos n cs) [] (drop 1 cs) = Inr (k, cs1)"
    and r: "r = skip_ws (drop 1 (skip_ws cs1))"
    unfolding object_key_def
    by (auto simp: Let_def split: if_splits sum.splits)
  have "length r \<le> length cs1"
    using skip_ws_length [of "drop 1 (skip_ws cs1)"] skip_ws_length [of cs1] by (simp add: r)
  moreover have "length cs1 < length (drop 1 cs)" using s by (rule scanstring_length)
  ultimately show ?thesis by simp
qed

lemma after_value_length:
  assumes "after_value n c cs = Inr (b, r)"
  shows "length r \<le> length cs" and "\<not> b \<Longrightarrow> length r < length cs"
proof -
  have a: "length (drop 1 (skip_ws cs)) \<le> length cs"
    using skip_ws_length [of cs] by simp
  have b: "length (skip_ws (drop 1 (skip_ws cs))) \<le> length (drop 1 (skip_ws cs))"
    by (rule skip_ws_length)
  show "length r \<le> length cs"
    using assms a b unfolding after_value_def
    by (auto simp: Let_def split: if_splits)
  assume "\<not> b"
  then have r: "r = skip_ws (drop 1 (skip_ws cs))" and ne: "skip_ws cs \<noteq> []"
    using assms unfolding after_value_def
    by (auto simp: Let_def split: if_splits)
  from ne have "length (drop 1 (skip_ws cs)) < length (skip_ws cs)"
    by (cases "skip_ws cs") auto
  with b skip_ws_length [of cs] show "length r < length cs" by (simp add: r)
qed

lemma scan_dom_length:
  "scan_once_parse_object_parse_array_dom (Inl (mx, n, d, cs)) \<Longrightarrow>
     (\<forall>v r. scan_once mx n d cs = Inr (v, r) \<longrightarrow> length r \<le> length cs)"
  "scan_once_parse_object_parse_array_dom (Inr (Inl (mx, n, d, pairs, cs))) \<Longrightarrow>
     (\<forall>v r. parse_object mx n d pairs cs = Inr (v, r) \<longrightarrow> length r \<le> length cs)"
  "scan_once_parse_object_parse_array_dom (Inr (Inr (mx, n, d, vals, cs))) \<Longrightarrow>
     (\<forall>v r. parse_array mx n d vals cs = Inr (v, r) \<longrightarrow> length r \<le> length cs)"
proof (induct rule: scan_once_parse_object_parse_array.pinduct)
  case (1 mx n d cs)
  have sk: "length (skip_ws (drop 1 cs)) \<le> length cs"
    using skip_ws_length [of "drop 1 cs"] by simp
  show ?case
  proof (intro allI impI)
    fix v r
    assume eq: "scan_once mx n d cs = Inr (v, r)"
    show "length r \<le> length cs"
    proof (cases "take 1 cs = [ord CHR ''{'']")
      case True
      with eq 1 sk show ?thesis
        by (fastforce simp: scan_once.psimps Let_def split: if_splits)
    next
      case False
      note notobj = this
      show ?thesis
      proof (cases "take 1 cs = [ord CHR ''['']")
        case True
        with eq 1 sk notobj show ?thesis
          by (fastforce simp: scan_once.psimps Let_def split: if_splits)
      next
        case False
        with eq 1(1) notobj have "scan_atom mx n cs = Inr (v, r)"
          by (simp add: scan_once.psimps)
        then show ?thesis by (rule scan_atom_length)
      qed
    qed
  qed
next
  case (2 mx n d pairs cs)
  show ?case
  proof (intro allI impI)
    fix v r
    assume eq: "parse_object mx n d pairs cs = Inr (v, r)"
    from eq 2(1) obtain key cs1 val cs2 closed cs3 where
      k: "object_key n cs = Inr (key, cs1)" and
      s: "scan_once mx n d cs1 = Inr (val, cs2)" and
      a: "after_value n (ord CHR ''}'') cs2 = Inr (closed, cs3)" and
      c: "closed \<and> r = cs3
          \<or> \<not> closed \<and> parse_object mx n d (setitem pairs key val) cs3 = Inr (v, r)"
      by (auto simp: parse_object.psimps split: sum.splits prod.splits if_splits)
    have l1: "length cs1 < length cs" using k by (rule object_key_length)
    have l2: "length cs2 \<le> length cs1" using 2(2) k s by fastforce
    have l3: "length cs3 \<le> length cs2" using a by (rule after_value_length(1))
    have "length r \<le> length cs3"
      using c 2(3) k s a by fastforce
    with l1 l2 l3 show "length r \<le> length cs" by simp
  qed
next
  case (3 mx n d vals cs)
  show ?case
  proof (intro allI impI)
    fix v r
    assume eq: "parse_array mx n d vals cs = Inr (v, r)"
    from eq 3(1) obtain val cs2 closed cs3 where
      s: "scan_once mx n d cs = Inr (val, cs2)" and
      a: "after_value n (ord CHR '']'') cs2 = Inr (closed, cs3)" and
      c: "closed \<and> r = cs3
          \<or> \<not> closed \<and> parse_array mx n d (vals @ [val]) cs3 = Inr (v, r)"
      by (auto simp: parse_array.psimps split: sum.splits prod.splits if_splits)
    have l2: "length cs2 \<le> length cs" using 3(2) s by fastforce
    have l3: "length cs3 \<le> length cs2" using a by (rule after_value_length(1))
    have "length r \<le> length cs3"
      using c 3(3) s a by fastforce
    with l2 l3 show "length r \<le> length cs" by simp
  qed
qed

termination scan_once
proof (relation "inv_image (less_than <*lex*> less_than <*lex*> less_than)
    (\<lambda>x. case x of
        Inl (mx, n, d, cs) \<Rightarrow> (d, length cs, 0::nat)
      | Inr (Inl (mx, n, d, pairs, cs)) \<Rightarrow> (d, length cs, 1)
      | Inr (Inr (mx, n, d, vals, cs)) \<Rightarrow> (d, length cs, 1))", goal_cases)
  case 1
  then show ?case by (simp add: wf_lex_prod)
next
  case (2 mx n d cs x)
  then show ?case by simp
next
  case (3 mx n d cs x)
  then show ?case by simp
next
  case (4 mx n d pairs cs x2 x y)
  then show ?case using object_key_length by fastforce
next
  case (5 mx n d pairs cs x2 x y x2a xa ya x2b xb yb)
  have "length y < length cs" using 5 object_key_length by fastforce
  moreover have "length ya \<le> length y" using 5 scan_dom_length(1) by fastforce
  moreover have "length yb \<le> length ya" using 5 after_value_length(1) by fastforce
  ultimately show ?case by simp
next
  case (6 mx n d vals cs)
  then show ?case by simp
next
  case (7 mx n d vals cs x2 x y x2a xa ya)
  have "length y \<le> length cs" using 7 scan_dom_length(1) by fastforce
  moreover have "length ya < length y" using 7 after_value_length(2) by fastforce
  ultimately show ?case by simp
qed

declare scan_once.simps [simp del] parse_object.simps [simp del] parse_array.simps [simp del]


text \<open>\<open>str(e)\<close> of a \<open>JSONDecodeError(msg, doc, pos)\<close>.\<close>

definition JSONDecodeError_str :: "ustr \<Rightarrow> ustr \<Rightarrow> nat \<Rightarrow> ustr" where
  "JSONDecodeError_str msg doc p =
     (let lineno = length (filter (\<lambda>c. c = 10) (take p doc)) + 1;
          colno = length (takeWhile (\<lambda>c. c \<noteq> 10) (rev (take p doc))) + 1
      in msg @ ustr_of '': line '' @ str_nat lineno @ ustr_of '' column '' @ str_nat colno
           @ ustr_of '' (char '' @ str_nat p @ ustr_of '')'')"

definition raise_of :: "nat \<Rightarrow> ustr \<Rightarrow> jfail \<Rightarrow> exn" where
  "raise_of mx doc f =
     (case f of
        StopIteration p \<Rightarrow>
          Exn JSONDecodeError (JSONDecodeError_str (ustr_of ''Expecting value'') doc p)
      | Malformed msg p \<Rightarrow> Exn JSONDecodeError (JSONDecodeError_str msg doc p)
      | TooDeep what \<Rightarrow>
          Exn RecursionError
            (ustr_of ''maximum recursion depth exceeded while decoding a JSON '' @ what
               @ ustr_of '' from a unicode string'')
      | TooManyDigits nd \<Rightarrow>
          Exn ValueError
            (ustr_of ''Exceeds the limit ('' @ str_nat mx
               @ ustr_of '' digits) for integer string conversion: value has '' @ str_nat nd
               @ ustr_of '' digits; use sys.set_int_max_str_digits() to increase the limit''))"

definition loads :: "nat \<Rightarrow> nat \<Rightarrow> ustr \<Rightarrow> exn + json" where
  "loads mx d s =
     (if take 1 s = [0xFEFF] then
        Inl (Exn JSONDecodeError
               (JSONDecodeError_str (ustr_of ''Unexpected UTF-8 BOM (decode using utf-8-sig)'') s 0))
      else
        (case scan_once mx (length s) d (skip_ws s) of
           Inl f \<Rightarrow> Inl (raise_of mx s f)
         | Inr (obj, rest) \<Rightarrow>
             if skip_ws rest \<noteq> [] then
               Inl (Exn JSONDecodeError
                      (JSONDecodeError_str (ustr_of ''Extra data'') s
                         (pos (length s) (skip_ws rest))))
             else Inr obj))"

text \<open>
  Truth value of a parsed value (\<open>if analysis:\<close>). A float literal is false when it
  denotes zero or rounds to it, that is when its magnitude is at most \<open>2 ^ -1075\<close>.
\<close>

definition float_is_zero :: "ustr \<Rightarrow> bool" where
  "float_is_zero l =
     (if l = ustr_of ''NaN'' \<or> l = ustr_of ''Infinity'' \<or> l = ustr_of ''-Infinity'' then False
      else
        (let is_e = (\<lambda>c. c = ord CHR ''e'' \<or> c = ord CHR ''E'');
             mant = takeWhile (\<lambda>c. \<not> is_e c) l;
             ex = drop (length mant + 1) l;
             m = foldl (\<lambda>a c. a * 10 + (c - 48)) (0::nat) (filter is_digit mant);
             nfrac = length (filter is_digit (dropWhile (\<lambda>c. c \<noteq> ord CHR ''.'') mant));
             e = (if take 1 ex = [ord CHR ''-'']
                  then - int (foldl (\<lambda>a c. a * 10 + (c - 48)) (0::nat) (filter is_digit ex))
                  else int (foldl (\<lambda>a c. a * 10 + (c - 48)) (0::nat) (filter is_digit ex)))
                 - int nfrac
         in m = 0 \<or> (e < 0 \<and> m * 2 ^ 1075 \<le> 10 ^ nat (- e))))"

fun truthy :: "json \<Rightarrow> bool" where
  "truthy JNull = False"
| "truthy (JBool b) = b"
| "truthy (JInt i) = (i \<noteq> 0)"
| "truthy (JFloat l) = (\<not> float_is_zero l)"
| "truthy (JString s) = (s \<noteq> [])"
| "truthy (JArray vs) = (vs \<noteq> [])"
| "truthy (JObject kvs) = (kvs \<noteq> [])"

section \<open>The standard library: \<open>urllib.parse\<close>\<close>

text \<open>
  \<open>urlparse\<close> and \<open>parse_qs\<close> are those of CPython 3.11, for a URL whose code points
  are below 256 (on these the netloc check under NFKC normalisation never raises). The
  check of a bracketed host against the syntax of IP addresses is a parameter.
\<close>

text \<open>\<open>s.partition(c)\<close> and \<open>s.split(c)\<close> for a one-character \<open>c\<close>.\<close>

definition str_partition :: "char \<Rightarrow> string \<Rightarrow> string \<times> bool \<times> string" where
  "str_partition c s = (takeWhile (\<lambda>x. x \<noteq> c) s, c \<in> set s, drop 1 (dropWhile (\<lambda>x. x \<noteq> c) s))"

fun str_split :: "char \<Rightarrow> string \<Rightarrow> string list" where
  "str_split c [] = [[]]"
| "str_split c (x # xs) =
     (if x = c then [] # str_split c xs
      else (case str_split c xs of
              [] \<Rightarrow> [[x]]
            | y # ys \<Rightarrow> (x # y) # ys))"

definition is_ascii_alpha :: "char \<Rightarrow> bool" where
  "is_ascii_alpha c \<longleftrightarrow>
     (65 \<le> (of_char c :: nat) \<and> (of_char c :: nat) \<le> 90)
     \<or> (97 \<le> (of_char c :: nat) \<and> (of_char c :: nat) \<le> 122)"

definition scheme_char :: "char \<Rightarrow> bool" where
  "scheme_char c \<longleftrightarrow>
     is_ascii_alpha c \<or> (48 \<le> (of_char c :: nat) \<and> (of_char c :: nat) \<le> 57)
     \<or> c = CHR ''+'' \<or> c = CHR ''-'' \<or> c = CHR ''.''"

definition lower_char :: "char \<Rightarrow> char" where
  "lower_char c =
     (let k = (of_char c :: nat) in
      if (65 \<le> k \<and> k \<le> 90) \<or> (192 \<le> k \<and> k \<le> 222 \<and> k \<noteq> 215) then char_of (k + 32) else c)"

definition uses_params :: "string list" where
  "uses_params = ['''', ''ftp'', ''hdl'', ''prospero'', ''http'', ''imap'', ''https'', ''shttp'',
     ''rtsp'', ''rtsps'', ''rtspu'', ''sip'', ''sips'', ''mms'', ''sftp'', ''tel'']"

text \<open>The six components of a \<open>ParseResult\<close>.\<close>

record parse_result =
  scheme :: string
  netloc :: string
  path :: string
  params :: string
  query :: string
  fragment :: string

definition netloc_delim :: "char \<Rightarrow> bool" where
  "netloc_delim c \<longleftrightarrow> c = CHR ''/'' \<or> c = CHR ''?'' \<or> c = CHR ''#''"

text \<open>
  \<open>urlsplit\<close>; \<open>check\<close> is \<open>_check_bracketed_host\<close>, the exception it raises on the
  text between brackets in the netloc, or \<open>None\<close>.
\<close>

definition urlsplit :: "(string \<Rightarrow> exn option) \<Rightarrow> string \<Rightarrow> exn + parse_result" where
  "urlsplit check url0 =
     (let url1 = dropWhile (\<lambda>c. (of_char c :: nat) \<le> 32) url0;
          url2 = filter (\<lambda>c. c \<noteq> CHR 0x09 \<and> c \<noteq> CHR 0x0D \<and> c \<noteq> CHR 0x0A) url1;
          head = takeWhile (\<lambda>c. c \<noteq> CHR '':'') url2;
          has_scheme = (CHR '':'' \<in> set url2 \<and> head \<noteq> [] \<and> is_ascii_alpha (hd url2)
                         \<and> list_all scheme_char head);
          sch = (if has_scheme then map lower_char head else []);
          url3 = (if has_scheme then drop (length head + 1) url2 else url2);
          has_netloc = (take 2 url3 = ''//'');
          nl = (if has_netloc then takeWhile (\<lambda>c. \<not> netloc_delim c) (drop 2 url3) else []);
          url4 = (if has_netloc then dropWhile (\<lambda>c. \<not> netloc_delim c) (drop 2 url3) else url3);
          (url5, has_frag, frag) = (if CHR ''#'' \<in> set url4 then str_partition CHR ''#'' url4 else (url4, False, []));
          (url6, has_q, q) = (if CHR ''?'' \<in> set url5 then str_partition CHR ''?'' url5 else (url5, False, []))
      in if has_netloc \<and> ((CHR ''['' \<in> set nl \<and> CHR '']'' \<notin> set nl) \<or> (CHR '']'' \<in> set nl \<and> CHR ''['' \<notin> set nl))
         then Inl (Exn ValueError (ustr_of ''Invalid IPv6 URL''))
         else
           (case (if has_netloc \<and> CHR ''['' \<in> set nl \<and> CHR '']'' \<in> set nl
                  then check (fst (str_partition CHR '']'' (snd (snd (str_partition CHR ''['' nl)))))
                  else None) of
              Some e \<Rightarrow> Inl e
            | None \<Rightarrow>
                Inr \<lparr>scheme = sch, netloc = nl, path = url6, params = [], query = q, fragment = frag\<rparr>))"

definition splitparams :: "string \<Rightarrow> string \<times> string" where
  "splitparams url =
     (if CHR ''/'' \<in> set url then
        (let seg = rev (takeWhile (\<lambda>c. c \<noteq> CHR ''/'') (rev url));
             front = take (length url - length seg) url
         in if CHR '';'' \<in> set seg
            then (front @ takeWhile (\<lambda>c. c \<noteq> CHR '';'') seg, drop 1 (dropWhile (\<lambda>c. c \<noteq> CHR '';'') seg))
            else (url, []))
      else (takeWhile (\<lambda>c. c \<noteq> CHR '';'') url, drop 1 (dropWhile (\<lambda>c. c \<noteq> CHR '';'') url)))"

text \<open>
  \<open>urlparse\<close>. Given \<open>None\<close> (a form without the field) it returns empty components,
  as it does for empty \<open>bytes\<close>.
\<close>

definition urlparse :: "(string \<Rightarrow> exn option) \<Rightarrow> string option \<Rightarrow> exn + parse_result" where
  "urlparse check url =
     (case url of
        None \<Rightarrow> Inr \<lparr>scheme = [], netloc = [], path = [], params = [], query = [], fragment = []\<rparr>
      | Some u \<Rightarrow>
          (case urlsplit check u of
             Inl e \<Rightarrow> Inl e
           | Inr r \<Rightarrow>
               if scheme r \<in> set uses_params \<and> CHR '';'' \<in> set (path r)
               then Inr (r\<lparr>path := fst (splitparams (path r)), params := snd (splitparams (path r))\<rparr>)
               else Inr r))"

text \<open>The \<open>hostname\<close> property.\<close>

definition hostname :: "parse_result \<Rightarrow> string option" where
  "hostname r =
     (let hostinfo = rev (takeWhile (\<lambda>c. c \<noteq> CHR ''@'') (rev (netloc r)));
          h = (if CHR ''['' \<in> set hostinfo
               then fst (str_partition CHR '']'' (snd (snd (str_partition CHR ''['' hostinfo))))
               else fst (str_partition CHR '':'' hostinfo))
      in if h = [] then None
         else Some (map lower_char (takeWhile (\<lambda>c. c \<noteq> CHR ''%'') h) @ dropWhile (\<lambda>c. c \<noteq> CHR ''%'') h))"

text \<open>
  \<open>unquote\<close> replaces each \<open>%xx\<close> of a run of ASCII characters by its byte and decodes
  the run as UTF-8, an invalid sequence becoming \<open>U+FFFD\<close>; characters that are not
  ASCII stay as they are.
\<close>

fun unquote_to_bytes :: "ustr \<Rightarrow> ustr" where
  "unquote_to_bytes [] = []"
| "unquote_to_bytes (c # cs) =
     (if c = ord CHR ''%'' then
        (case cs of
           a # b # rest \<Rightarrow>
             (case (hex_val a, hex_val b) of
                (Some x, Some y) \<Rightarrow> (x * 16 + y) # unquote_to_bytes rest
              | _ \<Rightarrow> c # unquote_to_bytes cs)
         | _ \<Rightarrow> c # unquote_to_bytes cs)
      else c # unquote_to_bytes cs)"

definition cont :: "nat \<Rightarrow> bool" where
  "cont b \<longleftrightarrow> 0x80 \<le> b \<and> b \<le> 0xBF"

text \<open>The range of the first continuation byte after the lead byte b.\<close>

definition cont1 :: "nat \<Rightarrow> nat \<Rightarrow> bool" where
  "cont1 b c \<longleftrightarrow>
     (if b = 0xE0 then 0xA0 \<le> c \<and> c \<le> 0xBF
      else if b = 0xED then 0x80 \<le> c \<and> c \<le> 0x9F
      else if b = 0xF0 then 0x90 \<le> c \<and> c \<le> 0xBF
      else if b = 0xF4 then 0x80 \<le> c \<and> c \<le> 0x8F
      else cont c)"

fun utf8_decode :: "ustr \<Rightarrow> ustr" where
  "utf8_decode [] = []"
| "utf8_decode (b # bs) =
     (if b < 0x80 then b # utf8_decode bs
      else if 0xC2 \<le> b \<and> b \<le> 0xDF then
        (case bs of
           [] \<Rightarrow> [0xFFFD]
         | c1 # r1 \<Rightarrow>
             if cont c1 then ((b - 0xC0) * 64 + (c1 - 0x80)) # utf8_decode r1
             else 0xFFFD # utf8_decode bs)
      else if 0xE0 \<le> b \<and> b \<le> 0xEF then
        (case bs of
           [] \<Rightarrow> [0xFFFD]
         | c1 # r1 \<Rightarrow>
             if \<not> cont1 b c1 then 0xFFFD # utf8_decode bs
             else
               (case r1 of
                  [] \<Rightarrow> [0xFFFD]
                | c2 # r2 \<Rightarrow>
                    if cont c2 then
                      (((b - 0xE0) * 64 + (c1 - 0x80)) * 64 + (c2 - 0x80)) # utf8_decode r2
                    else 0xFFFD # utf8_decode r1))
      else if 0xF0 \<le> b \<and> b \<le> 0xF4 then
        (case bs of
           [] \<Rightarrow> [0xFFFD]
         | c1 # r1 \<Rightarrow>
             if \<not> cont1 b c1 then 0xFFFD # utf8_decode bs
             else
               (case r1 of
                  [] \<Rightarrow> [0xFFFD]
                | c2 # r2 \<Rightarrow>
                    if \<not> cont c2 then 0xFFFD # utf8_decode r1
                    else
                      (case r2 of
                         [] \<Rightarrow> [0xFFFD]
                       | c3 # r3 \<Rightarrow>
                           if cont c3 then
                             ((((b - 0xF0) * 64 + (c1 - 0x80)) * 64 + (c2 - 0x80)) * 64 + (c3 - 0x80))
                               # utf8_decode r3
                           else 0xFFFD # utf8_decode r2)))
      else 0xFFFD # utf8_decode bs)"

fun unquote_runs :: "ustr \<Rightarrow> ustr \<Rightarrow> ustr" where
  "unquote_runs run [] = utf8_decode (unquote_to_bytes run)"
| "unquote_runs run (c # cs) =
     (if c < 0x80 then unquote_runs (run @ [c]) cs
      else utf8_decode (unquote_to_bytes run) @ c # unquote_runs [] cs)"

definition unquote :: "ustr \<Rightarrow> ustr" where
  "unquote s = (if ord CHR ''%'' \<notin> set s then s else unquote_runs [] s)"

definition unquote_plus :: "string \<Rightarrow> ustr" where
  "unquote_plus s = unquote (map (\<lambda>c. if c = CHR ''+'' then 32 else of_char c) s)"

text \<open>\<open>parse_qsl\<close> and \<open>parse_qs\<close> with their default arguments: blank values are dropped.\<close>

definition parse_qsl :: "string \<Rightarrow> (ustr \<times> ustr) list" where
  "parse_qsl qs =
     (if qs = [] then []
      else concat (map (\<lambda>name_value.
             case str_partition CHR ''='' name_value of
               (name, has_eq, val) \<Rightarrow>
                 if name_value \<noteq> [] \<and> val \<noteq> [] then [(unquote_plus name, unquote_plus val)] else [])
           (str_split CHR ''&'' qs)))"

fun dict_append :: "(ustr \<times> ustr list) list \<Rightarrow> ustr \<Rightarrow> ustr \<Rightarrow> (ustr \<times> ustr list) list" where
  "dict_append [] k v = [(k, [v])]"
| "dict_append ((k', vs) # d) k v =
     (if k' = k then (k', vs @ [v]) # d else (k', vs) # dict_append d k v)"

definition parse_qs :: "string \<Rightarrow> (ustr \<times> ustr list) list" where
  "parse_qs qs = foldl (\<lambda>d (name, val). dict_append d name val) [] (parse_qsl qs)"


section \<open>The services and the world\<close>

text \<open>
  The two remote services and the interpreter's limits are parameters of the model:
  \<^item> \<open>get_transcript_api video_id languages\<close> is
    \<open>YouTubeTranscriptApi.get_transcript(video_id, languages=...)\<close>: the caption
    fragments, or the exception it raises;
  \<^item> \<open>generate_content prompt\<close> is \<open>gemini_model.generate_content(prompt).text\<close>: the
    text, or the exception raised by the call or by reading \<open>.text\<close>;
  \<^item> \<open>max_depth\<close> bounds the nesting that \<open>json.loads\<close> accepts before
    \<open>RecursionError\<close>, \<open>max_str_digits\<close> is \<open>sys.get_int_max_str_digits()\<close>;
  \<^item> \<open>check_bracketed_host\<close> is \<open>urllib.parse._check_bracketed_host\<close>.
  A caption fragment is the \<open>dict\<close> the transcript service returns; only its
  \<open>'text'\<close> entry is read.
\<close>

record fragment =
  item_text :: ustr

record env =
  get_transcript_api :: "ustr \<Rightarrow> ustr list \<Rightarrow> exn + fragment list"
  generate_content :: "ustr \<Rightarrow> exn + ustr"
  max_depth :: nat
  max_str_digits :: nat
  check_bracketed_host :: "string \<Rightarrow> exn option"

text \<open>
  What a handler leaves behind besides its result: the lines it printed and the
  requests it sent, both in order.
\<close>

datatype request_sent = TranscriptRequest ustr "ustr list" | CompletionRequest ustr

record world =
  stdout :: "ustr list"
  requests :: "request_sent list"

definition print :: "ustr \<Rightarrow> world \<Rightarrow> world" where
  "print line w = w\<lparr>stdout := stdout w @ [line]\<rparr>"

definition send :: "request_sent \<Rightarrow> world \<Rightarrow> world" where
  "send r w = w\<lparr>requests := requests w @ [r]\<rparr>"

section \<open>The helper functions of \<open>app.py\<close>\<close>

text \<open>\<open>xs[i]\<close> for an index that is not negative.\<close>

definition getitem :: "'a list \<Rightarrow> nat \<Rightarrow> exn + 'a" where
  "getitem xs i =
     (if i < length xs then Inr (xs ! i)
      else Inl (Exn IndexError (ustr_of ''list index out of range'')))"

definition extract_video_id :: "env \<Rightarrow> string option \<Rightarrow> exn + ustr option" where
  "extract_video_id env url =
     (case urlparse (check_bracketed_host env) url of
        Inl e \<Rightarrow> Inl e
      | Inr parsed_url \<Rightarrow>
          if hostname parsed_url \<in> set [Some ''youtu.be''] then
            Inr (Some (ustr_of (drop 1 (path parsed_url))))
          else if hostname parsed_url \<in> set [Some ''www.youtube.com'', Some ''youtube.com''] then
            (if path parsed_url = ''/watch'' then
               (case map_of (parse_qs (query parsed_url)) (ustr_of ''v'') of
                  None \<Rightarrow> getitem [None] 0
                | Some vs \<Rightarrow> getitem (map Some vs) 0)
             else if take 7 (path parsed_url) = ''/embed/'' then
               (case getitem (str_split CHR ''/'' (path parsed_url)) 2 of
                  Inl e \<Rightarrow> Inl e
                | Inr x \<Rightarrow> Inr (Some (ustr_of x)))
             else if take 3 (path parsed_url) = ''/v/'' then
               (case getitem (str_split CHR ''/'' (path parsed_url)) 2 of
                  Inl e \<Rightarrow> Inl e
                | Inr x \<Rightarrow> Inr (Some (ustr_of x)))
             else Inr None)
          else Inr None)"

definition get_transcript :: "env \<Rightarrow> ustr \<Rightarrow> ustr \<Rightarrow> world \<Rightarrow> ustr option \<times> world" where
  "get_transcript env video_id lang_code w =
     (case get_transcript_api env video_id [lang_code] of
        Inr transcript_list \<Rightarrow>
          (Some (str_join (ustr_of '' '') (map item_text transcript_list)),
           send (TranscriptRequest video_id [lang_code]) w)
      | Inl e \<Rightarrow>
          (None,
           print (ustr_of ''Error fetching transcript: '' @ exn_str e)
             (send (TranscriptRequest video_id [lang_code]) w)))"

definition answer_prompt :: "ustr \<Rightarrow> ustr \<Rightarrow> ustr" where
  \<open>answer_prompt question transcript =
     ustr_of ''\<newline>    Based on the following YouTube video transcript, answer the question asked by the user.\<newline>    Keep your answer concise and directly related to the content of the transcript.\<newline>\<newline>    Transcript: ''
     @ transcript @ ustr_of ''\<newline>\<newline>    Question: '' @ question
     @ ustr_of ''\<newline>\<newline>    Answer:\<newline>    ''\<close>

definition answer_question :: "env \<Rightarrow> ustr \<Rightarrow> ustr \<Rightarrow> world \<Rightarrow> ustr \<times> world" where
  "answer_question env question transcript w =
     (let prompt = answer_prompt question transcript in
      case generate_content env prompt of
        Inr text \<Rightarrow> (strip text, send (CompletionRequest prompt) w)
      | Inl e \<Rightarrow>
          (ustr_of ''Sorry, I could not generate an answer at this time.'',
           print (ustr_of ''Gemini API error (Answering): '' @ exn_str e)
             (send (CompletionRequest prompt) w)))"


definition analysis_prompt :: "ustr \<Rightarrow> ustr" where
  \<open>analysis_prompt transcript =
     ustr_of ''\<newline>    Analyze the following YouTube video transcript and return your response as a strict JSON object with the following structure:\<newline>\<newline>    {\<newline>      "summary": "A concise summary of the video content.",\<newline>      "keypoints": ["Important point 1", "Important point 2", ...],\<newline>      "topics": ["Topic 1", "Topic 2", ...],\<newline>      "topic_explanations": {\<newline>        "Topic 1": "A brief explanation of Topic 1 based on the transcript.",\<newline>        "Topic 2": "A brief explanation of Topic 2 based on the transcript.",\<newline>        ...\<newline>      },\<newline>      "transcript": "The full transcript of the video."\<newline>    }\<newline>\<newline>    For each topic identified, provide a concise explanation of two to three lines based on the information present in the transcript.\<newline>\<newline>    Transcript: ''
     @ transcript @ ustr_of ''\<newline>    ''\<close>

text \<open>The \<open>dict\<close> \<open>{"error": message}\<close>.\<close>

definition error_dict :: "ustr \<Rightarrow> json" where
  "error_dict message = JObject [(ustr_of ''error'', JString message)]"

text \<open>
  The \<open>while temp_string:\<close> loop of \<open>analyze_transcript\<close>: \<open>None\<close> when the loop
  runs out of characters, otherwise the value the loop returns or the exception that
  leaves it (one that is not a \<open>JSONDecodeError\<close>).
\<close>

fun iterative_refinement :: "env \<Rightarrow> ustr \<Rightarrow> (exn + json) option" where
  "iterative_refinement env temp_string =
     (if temp_string = [] then None
      else
        (case loads (max_str_digits env) (max_depth env) temp_string of
           Inr analysis \<Rightarrow> Some (Inr analysis)
         | Inl e \<Rightarrow>
             if exn_class e = JSONDecodeError then iterative_refinement env (butlast temp_string)
             else Some (Inl e)))"

declare iterative_refinement.simps [simp del]

text \<open>
  The body of the inner \<open>try\<close> of \<open>analyze_transcript\<close>: the value it returns, or the
  exception that leaves it.
\<close>

definition robust_parsing :: "env \<Rightarrow> ustr \<Rightarrow> world \<Rightarrow> (exn + json) \<times> world" where
  "robust_parsing env raw_text w =
     (let start_index = str_find raw_text (ord CHR ''{'');
          end_index = str_rfind raw_text (ord CHR ''}'')
      in if start_index \<noteq> - 1 \<and> end_index \<noteq> - 1 \<and> start_index < end_index then
           (let json_string = slice raw_text start_index (end_index + 1) in
            case loads (max_str_digits env) (max_depth env) json_string of
              Inr analysis \<Rightarrow> (Inr analysis, w)
            | Inl e_inner \<Rightarrow>
                if exn_class e_inner = JSONDecodeError then
                  (case iterative_refinement env json_string of
                     Some (Inr analysis) \<Rightarrow> (Inr analysis, w)
                   | Some (Inl e) \<Rightarrow> (Inl e, w)
                   | None \<Rightarrow>
                       (Inr (error_dict
                               (ustr_of ''The model's response was not valid JSON after refinement: ''
                                  @ exn_str e_inner)),
                        print (ustr_of ''JSON Decode Error (Iterative Refinement): ''
                                 @ exn_str e_inner) w))
                else (Inl e_inner, w))
         else
           (Inr (error_dict (ustr_of ''The model's response did not contain valid JSON.'')),
            print (ustr_of ''Could not find valid JSON boundaries in the raw response.'') w))"

definition analyze_transcript :: "env \<Rightarrow> ustr \<Rightarrow> world \<Rightarrow> json \<times> world" where
  "analyze_transcript env transcript w =
     (let prompt = analysis_prompt transcript in
      case generate_content env prompt of
        Inl e \<Rightarrow>
          (error_dict (exn_str e),
           print (ustr_of ''Gemini API error (Analysis): '' @ exn_str e)
             (send (CompletionRequest prompt) w))
      | Inr text \<Rightarrow>
          (let raw_text = strip text in
           case robust_parsing env raw_text
                  (print (ustr_of ''Raw Gemini Response (Analysis):\<newline> '' @ raw_text)
                     (send (CompletionRequest prompt) w)) of
             (Inr analysis, w') \<Rightarrow> (analysis, w')
           | (Inl e, w') \<Rightarrow>
               if exn_class e = JSONDecodeError then
                 (error_dict (ustr_of ''The model's response was not valid JSON: '' @ exn_str e),
                  print (ustr_of ''JSON Decode Error (Robust Parsing): '' @ exn_str e) w')
               else
                 (error_dict (exn_str e),
                  print (ustr_of ''Gemini API error (Analysis): '' @ exn_str e) w')))"

section \<open>The request handlers\<close>

text \<open>
  A request carries its method, its form fields and the object that
  \<open>request.get_json()\<close> returns, whose members are strings here. A response is a
  rendered template with its context, a text with its status, or \<open>jsonify\<close> of a
  \<open>dict\<close> with its status.
\<close>

record request =
  http_method :: string
  form :: "string \<rightharpoonup> string"
  json_data :: "ustr \<rightharpoonup> ustr"

datatype response =
    Html string "(string \<times> json) list"
  | Text ustr nat
  | Jsonify "(ustr \<times> json) list" nat

text \<open>\<open>not x\<close> for a value that is a string or \<open>None\<close>.\<close>

definition not_str :: "ustr option \<Rightarrow> bool" where
  "not_str x \<longleftrightarrow> x = None \<or> x = Some []"

definition ask_question_route :: "env \<Rightarrow> request \<Rightarrow> world \<Rightarrow> response \<times> world" where
  "ask_question_route env req w =
     (let question = json_data req (ustr_of ''question'');
          transcript = json_data req (ustr_of ''transcript'')
      in if not_str question \<or> not_str transcript then
           (Jsonify [(ustr_of ''error'', JString (ustr_of ''Missing question or transcript.''))] 400, w)
         else
           (case answer_question env (the question) (the transcript) w of
              (answer, w') \<Rightarrow> (Jsonify [(ustr_of ''answer'', JString answer)] 200, w')))"

text \<open>
  The handler of \<open>/\<close>. An exception that \<open>extract_video_id\<close> raises is not caught
  and leaves the handler.
\<close>

definition index :: "env \<Rightarrow> request \<Rightarrow> world \<Rightarrow> (exn + response) \<times> world" where
  "index env req w =
     (if http_method req = ''POST'' then
        (let video_url = form req ''video_url'' in
         case extract_video_id env video_url of
           Inl e \<Rightarrow> (Inl e, w)
         | Inr video_id \<Rightarrow>
             if not_str video_id then
               (Inr (Text (ustr_of ''Invalid YouTube URL provided.'') 400), w)
             else
               (case get_transcript env (the video_id) (ustr_of ''en'') w of
                  (transcript_en, w1) \<Rightarrow>
                    (case (if not_str transcript_en
                           then get_transcript env (the video_id) (ustr_of ''hi'') w1
                           else (transcript_en, w1)) of
                       (transcript, w2) \<Rightarrow>
                         if \<not> not_str transcript then
                           (case analyze_transcript env (the transcript) w2 of
                              (analysis, w3) \<Rightarrow>
                                if truthy analysis then
                                  (Inr (Html ''result.html'' [(''analysis'', analysis)]), w3)
                                else
                                  (Inr (Text (ustr_of ''Error analyzing the transcript using Google Gemini API.'') 500),
                                   w3))
                         else
                           (Inr (Text (ustr_of ''Unable to extract transcript from the video. It may be unavailable in the specified languages.'') 500),
                            w2))))
      else (Inr (Html ''index.html'' []), w))"

section \<open>Notions used to state the properties\<close>

text \<open>\<open>json.loads\<close> raises \<open>JSONDecodeError\<close> on the string.\<close>

definition decode_fails :: "env \<Rightarrow> ustr \<Rightarrow> bool" where
  "decode_fails env s =
     (case loads (max_str_digits env) (max_depth env) s of
        Inl e \<Rightarrow> exn_class e = JSONDecodeError
      | Inr v \<Rightarrow> False)"

text \<open>
  The decode errors that the \<open>while temp_string:\<close> loop catches, in the order in which
  its attempts raise them.
\<close>

fun decode_errors :: "env \<Rightarrow> ustr \<Rightarrow> exn list" where
  "decode_errors env temp_string =
     (if temp_string = [] then []
      else
        (case loads (max_str_digits env) (max_depth env) temp_string of
           Inr analysis \<Rightarrow> []
         | Inl e \<Rightarrow>
             if exn_class e = JSONDecodeError then e # decode_errors env (butlast temp_string)
             else []))"

declare decode_errors.simps [simp del]

text \<open>The characters that can continue a number literal.\<close>

definition numchar :: "nat \<Rightarrow> bool" where
  "numchar c \<longleftrightarrow> is_digit c \<or> c = ord CHR ''.'' \<or> c = ord CHR ''e'' \<or> c = ord CHR ''E''"

text \<open>
  An environment with the limits of a CPython 3.11 process started with its defaults,
  and a world in which nothing has happened yet.
\<close>

definition default_env ::
  "(ustr \<Rightarrow> ustr list \<Rightarrow> exn + fragment list) \<Rightarrow> (ustr \<Rightarrow> exn + ustr) \<Rightarrow> env" where
  "default_env api model =
     \<lparr>get_transcript_api = api, generate_content = model,
      max_depth = 1000, max_str_digits = 4300, check_bracketed_host = (\<lambda>h. None)\<rparr>"

definition world0 :: world where
  "world0 = \<lparr>stdout = [], requests = []\<rparr>"

subsection \<open>Text\<close>

lemma str_join_concat:
  "str_join sep xs = (case xs of [] \<Rightarrow> [] | x # r \<Rightarrow> x @ concat (map ((@) sep) r))"
  by (induction sep xs rule: str_join.induct) simp_all

lemma dropWhile_keeps:
  "\<not> P y \<Longrightarrow> dropWhile P (xs @ y # ys) = dropWhile P xs @ y # ys"
  by (induction xs) simp_all

lemma strip_decomp:
  "\<exists>pre suf. s = pre @ strip s @ suf \<and> (\<forall>c\<in>set pre. isspace c) \<and> (\<forall>c\<in>set suf. isspace c)"
proof -
  define t where "t = dropWhile isspace s"
  have 1: "s = takeWhile isspace s @ t" by (simp add: t_def)
  have "rev (takeWhile isspace (rev t) @ dropWhile isspace (rev t)) = rev (rev t)"
    by (simp only: takeWhile_dropWhile_id)
  then have "rev (dropWhile isspace (rev t)) @ rev (takeWhile isspace (rev t)) = t"
    by (simp only: rev_append rev_rev_ident)
  then have 2: "t = strip s @ rev (takeWhile isspace (rev t))"
    by (simp only: strip_def t_def)
  have "s = takeWhile isspace s @ strip s @ rev (takeWhile isspace (rev t))"
    using 1 2 by simp
  moreover have "\<forall>c\<in>set (takeWhile isspace s). isspace c"
    by (auto dest: set_takeWhileD)
  moreover have "\<forall>c\<in>set (rev (takeWhile isspace (rev t))). isspace c"
    by (auto dest: set_takeWhileD)
  ultimately show ?thesis by blast
qed

lemma strip_ends:
  assumes "strip s \<noteq> []"
  shows "\<not> isspace (hd (strip s))" and "\<not> isspace (last (strip s))"
proof -
  define t where "t = dropWhile isspace s"
  define u where "u = dropWhile isspace (rev t)"
  from assms have u: "u \<noteq> []" by (simp add: strip_def t_def u_def)
  then have t: "t \<noteq> []" by (auto simp: u_def)
  have "last (strip s) = hd u" using u by (simp add: strip_def t_def u_def last_rev)
  moreover have "\<not> isspace (hd u)" using u unfolding u_def by (rule hd_dropWhile)
  ultimately show "\<not> isspace (last (strip s))" by simp
  have "hd (strip s) = last u" using u by (simp add: strip_def t_def u_def hd_rev)
  also have "last u = last (rev t)"
  proof -
    have "rev t = takeWhile isspace (rev t) @ u" by (simp add: u_def)
    then show ?thesis using u by (metis last_appendR)
  qed
  also have "\<dots> = hd t" using t by (simp add: last_rev)
  finally have "hd (strip s) = hd t" .
  moreover have "\<not> isspace (hd t)" using t unfolding t_def by (rule hd_dropWhile)
  ultimately show "\<not> isspace (hd (strip s))" by simp
qed

lemma strip_around:
  assumes "\<not> isspace c" and "\<not> isspace d"
  shows "strip (pre @ [c] @ mid @ [d] @ suf)
           = dropWhile isspace pre @ [c] @ mid @ [d] @ rev (dropWhile isspace (rev suf))"
proof -
  have 1: "dropWhile isspace (pre @ [c] @ mid @ [d] @ suf)
             = dropWhile isspace pre @ c # (mid @ [d] @ suf)"
    using dropWhile_keeps [of isspace c pre "mid @ [d] @ suf", OF assms(1)] by simp
  have "rev (dropWhile isspace pre @ c # (mid @ [d] @ suf))
          = rev suf @ d # (rev mid @ [c] @ rev (dropWhile isspace pre))" by simp
  then have "dropWhile isspace (rev (dropWhile isspace pre @ c # (mid @ [d] @ suf)))
          = dropWhile isspace (rev suf) @ d # (rev mid @ [c] @ rev (dropWhile isspace pre))"
    using dropWhile_keeps [of isspace d "rev suf" "rev mid @ [c] @ rev (dropWhile isspace pre)",
        OF assms(2)] by simp
  then show ?thesis unfolding strip_def 1 by simp
qed

lemma str_find_absent: "str_find s c = - 1 \<longleftrightarrow> c \<notin> set s"
  by (simp add: str_find_def)

lemma takeWhile_stops_early:
  "c \<in> set xs \<Longrightarrow> length (takeWhile (\<lambda>x. x \<noteq> c) xs) < length xs"
  by (induction xs) auto

lemma str_rfind_absent: "str_rfind s c = - 1 \<longleftrightarrow> c \<notin> set s"
proof (cases "c \<in> set s")
  case True
  then have "c \<in> set (rev s)" by simp
  then have "length (takeWhile (\<lambda>x. x \<noteq> c) (rev s)) < length (rev s)"
    by (rule takeWhile_stops_early)
  with True show ?thesis by (simp add: str_rfind_def)
next
  case False
  then show ?thesis by (simp add: str_rfind_def)
qed

lemma takeWhile_until:
  "c \<notin> set pre \<Longrightarrow> takeWhile (\<lambda>x. x \<noteq> c) (pre @ c # rest) = pre"
  by (induction pre) auto

lemma str_find_decomp:
  "c \<notin> set pre \<Longrightarrow> str_find (pre @ c # rest) c = int (length pre)"
  by (simp add: str_find_def takeWhile_until)

lemma str_rfind_decomp:
  assumes "d \<notin> set suf"
  shows "str_rfind (front @ d # suf) d = int (length front)"
proof -
  have "takeWhile (\<lambda>x. x \<noteq> d) (rev (front @ d # suf)) = rev suf"
    using takeWhile_until [of d "rev suf" "rev front"] assms by simp
  then show ?thesis by (simp add: str_rfind_def)
qed

lemma candidate_decomp:
  assumes "c \<notin> set pre" and "d \<notin> set suf"
  shows "str_find (pre @ [c] @ mid @ [d] @ suf) c = int (length pre)"
    and "str_rfind (pre @ [c] @ mid @ [d] @ suf) d = int (length pre + length mid + 1)"
    and "slice (pre @ [c] @ mid @ [d] @ suf)
           (str_find (pre @ [c] @ mid @ [d] @ suf) c)
           (str_rfind (pre @ [c] @ mid @ [d] @ suf) d + 1) = [c] @ mid @ [d]"
proof -
  show f: "str_find (pre @ [c] @ mid @ [d] @ suf) c = int (length pre)"
    using str_find_decomp [OF assms(1), of "mid @ [d] @ suf"] by simp
  show r: "str_rfind (pre @ [c] @ mid @ [d] @ suf) d = int (length pre + length mid + 1)"
    using str_rfind_decomp [OF assms(2), of "pre @ [c] @ mid"] by simp
  show "slice (pre @ [c] @ mid @ [d] @ suf)
           (str_find (pre @ [c] @ mid @ [d] @ suf) c)
           (str_rfind (pre @ [c] @ mid @ [d] @ suf) d + 1) = [c] @ mid @ [d]"
  proof -
    have "nat (int (length pre + length mid + 1) + 1) - nat (int (length pre))
            = Suc (length mid + 1)" by simp
    then show ?thesis unfolding f r slice_def by simp
  qed
qed

subsection \<open>A text that starts with a brace parses to an object\<close>

lemma parse_object_is_object:
  "parse_object mx n d pairs cs = Inr (v, r) \<Longrightarrow> \<exists>kvs. v = JObject kvs"
proof (induction mx n d pairs cs arbitrary: v r
       rule: scan_once_parse_object_parse_array.induct(2)
         [where P = "\<lambda>_ _ _ _. True" and R = "\<lambda>_ _ _ _ _. True"])
  case (2 mx n d pairs cs)
  from "2.prems" show ?case
    by (subst (asm) parse_object.simps)
       (auto split: sum.splits prod.splits if_splits dest: "2.IH")
qed simp_all

lemma scan_once_brace_is_object:
  assumes "take 1 cs = [ord CHR ''{'']" and "scan_once mx n d cs = Inr (v, r)"
  shows "\<exists>kvs. v = JObject kvs"
  using assms
  by (subst (asm) scan_once.simps)
     (auto simp: Let_def split: if_splits dest: parse_object_is_object)

lemma loads_brace_is_object:
  assumes "take 1 s = [ord CHR ''{'']" and "loads mx d s = Inr v"
  shows "\<exists>kvs. v = JObject kvs"
proof -
  from assms(1) have "skip_ws s = s"
    by (cases s) (auto simp: skip_ws_def is_ws_def)
  with assms(2) obtain r where "scan_once mx (length s) d s = Inr (v, r)"
    unfolding loads_def
    by (auto split: if_splits sum.splits prod.splits)
  with assms(1) show ?thesis by (rule scan_once_brace_is_object)
qed


lemma candidate_starts_with_brace:
  assumes "str_find raw c \<noteq> - 1" and "str_find raw c < e"
  shows "take 1 (slice raw (str_find raw c) (e + 1)) = [c]"
proof -
  from assms(1) have mem: "c \<in> set raw" by (simp add: str_find_absent)
  define k where "k = length (takeWhile (\<lambda>x. x \<noteq> c) raw)"
  have f: "str_find raw c = int k" using mem by (simp add: str_find_def k_def)
  have "drop k raw = dropWhile (\<lambda>x. x \<noteq> c) raw"
    unfolding k_def by (rule dropWhile_eq_drop [symmetric])
  moreover from mem have "\<exists>ys. dropWhile (\<lambda>x. x \<noteq> c) raw = c # ys"
    by (induction raw) auto
  ultimately obtain ys where d: "drop k raw = c # ys" by auto
  from assms(2) f have "k < nat (e + 1) - 0 \<and> 0 < nat (e + 1) - k" by auto
  then obtain m where m: "nat (e + 1) - k = Suc m" by (cases "nat (e + 1) - k") auto
  show ?thesis by (simp add: slice_def f d m)
qed

lemma butlast_keeps_first:
  "take 1 s = [c] \<Longrightarrow> butlast s \<noteq> [] \<Longrightarrow> take 1 (butlast s) = [c]"
  by (cases s) (auto split: if_splits)

lemma iterative_refinement_is_object:
  "take 1 s = [ord CHR ''{''] \<Longrightarrow> iterative_refinement env s = Some (Inr v)
     \<Longrightarrow> \<exists>kvs. v = JObject kvs"
proof (induction env s rule: iterative_refinement.induct)
  case (1 env s)
  show ?case
  proof (cases "loads (max_str_digits env) (max_depth env) s")
    case (Inr a)
    with "1.prems"(2) have "a = v"
      by (simp add: iterative_refinement.simps [of env s] split: if_splits)
    with Inr "1.prems"(1) show ?thesis using loads_brace_is_object by blast
  next
    case (Inl e)
    with "1.prems"(2) have dec: "exn_class e = JSONDecodeError"
      and rec: "iterative_refinement env (butlast s) = Some (Inr v)" and ne: "s \<noteq> []"
      by (simp_all add: iterative_refinement.simps [of env s] split: if_splits)
    from rec have "butlast s \<noteq> []"
      by (simp add: iterative_refinement.simps [of env "butlast s"] split: if_splits)
    with "1.prems"(1) have "take 1 (butlast s) = [ord CHR ''{'']" by (rule butlast_keeps_first)
    with "1.IH" ne Inl dec rec show ?thesis by blast
  qed
qed

lemma error_dict_is_object: "\<exists>kvs. error_dict m = JObject kvs"
  by (simp add: error_dict_def)

lemma robust_parsing_is_object:
  assumes "fst (robust_parsing env raw_text w) = Inr v"
  shows "\<exists>kvs. v = JObject kvs"
proof (cases "str_find raw_text (ord CHR ''{'') \<noteq> - 1 \<and> str_rfind raw_text (ord CHR ''}'') \<noteq> - 1
              \<and> str_find raw_text (ord CHR ''{'') < str_rfind raw_text (ord CHR ''}'')")
  case False
  with assms show ?thesis
    unfolding robust_parsing_def by (auto simp: Let_def error_dict_def)
next
  case True
  define cand where
    "cand = slice raw_text (str_find raw_text (ord CHR ''{'')) (str_rfind raw_text (ord CHR ''}'') + 1)"
  from True have first: "take 1 cand = [ord CHR ''{'']"
    unfolding cand_def by (intro candidate_starts_with_brace) simp_all
  from assms True have
    "loads (max_str_digits env) (max_depth env) cand = Inr v
     \<or> iterative_refinement env cand = Some (Inr v)
     \<or> (\<exists>m. v = error_dict m)"
    unfolding robust_parsing_def
    by (auto simp: Let_def cand_def split: sum.splits if_splits option.splits)
  then show ?thesis
    using first loads_brace_is_object iterative_refinement_is_object error_dict_is_object
    by blast
qed

lemma analyze_transcript_is_object:
  "\<exists>kvs. fst (analyze_transcript env transcript w) = JObject kvs"
proof (cases "generate_content env (analysis_prompt transcript)")
  case (Inl e)
  then show ?thesis by (simp add: analyze_transcript_def error_dict_def)
next
  case (Inr raw)
  define w1 where "w1 = print (ustr_of ''Raw Gemini Response (Analysis):\<newline> '' @ strip raw)
                     (send (CompletionRequest (analysis_prompt transcript)) w)"
  show ?thesis
  proof (cases "fst (robust_parsing env (strip raw) w1)")
    case (Inl e)
    with Inr show ?thesis
      by (auto simp: analyze_transcript_def Let_def w1_def error_dict_def split: prod.splits)
  next
    case r: (Inr v)
    then obtain kvs where "v = JObject kvs" using robust_parsing_is_object by blast
    with Inr r show ?thesis
      by (auto simp: analyze_transcript_def Let_def w1_def split: prod.splits)
  qed
qed

subsection \<open>Scanning a text that is continued\<close>

text \<open>
  What the scanner made of a text it makes of the same text followed by more, as long
  as it did not stop at the end of a number.
\<close>

lemma skip_ws_append:
  "skip_ws cs \<noteq> [] \<Longrightarrow> skip_ws (cs @ q) = skip_ws cs @ q"
  unfolding skip_ws_def by (induction cs) auto

lemma dropWhile_append_nonempty:
  "dropWhile P xs \<noteq> [] \<Longrightarrow> dropWhile P (xs @ q) = dropWhile P xs @ q"
  by (induction xs) auto

lemma takeWhile_append_nonempty:
  "dropWhile P xs \<noteq> [] \<Longrightarrow> takeWhile P (xs @ q) = takeWhile P xs"
  by (induction xs) auto

lemma scanstring_short_escape:
  "length rest \<le> 4 \<Longrightarrow> scanstring n b acc (0x5C # ord CHR ''u'' # rest) \<noteq> Inr x"
  by simp

lemma scanstring_append:
  "scanstring n b acc cs = Inr (s, r) \<Longrightarrow> scanstring n' b' acc (cs @ q) = Inr (s, r @ q)"
proof (induction "length cs" arbitrary: cs acc s r rule: less_induct)
  case less
  note IH = less.hyps
  from less.prems obtain c cs0 where cs: "cs = c # cs0" by (cases cs) auto
  show ?case
  proof (cases "c = 0x22")
    case True
    with less.prems cs show ?thesis by simp
  next
    case nq: False
    show ?thesis
    proof (cases "c = 0x5C")
      case False
      with nq less.prems cs have ok: "\<not> c \<le> 0x1F"
        and rec: "scanstring n b (acc @ [c]) cs0 = Inr (s, r)"
        by (auto split: if_splits)
      have "scanstring n' b' (acc @ [c]) (cs0 @ q) = Inr (s, r @ q)"
        using IH [OF _ rec] cs by simp
      with nq False ok cs show ?thesis by simp
    next
      case bs: True
      with nq less.prems cs obtain e cs' where cs0: "cs0 = e # cs'"
        by (cases cs0) auto
      show ?thesis
      proof (cases "e = ord CHR ''u''")
        case False
        with nq bs cs cs0 less.prems obtain ch where b: "BACKSLASH e = Some ch"
          and rec: "scanstring n b (acc @ [ch]) cs' = Inr (s, r)"
          by (auto split: option.splits)
        have "scanstring n' b' (acc @ [ch]) (cs' @ q) = Inr (s, r @ q)"
          using IH [OF _ rec] cs cs0 by simp
        with nq bs cs cs0 False b show ?thesis by simp
      next
        case u: True
        from less.prems nq bs cs cs0 u obtain uni where
          len: "4 < length cs'" and h: "hex4 (take 4 cs') = Some uni"
          by (auto split: if_splits option.splits simp del: hex4.simps)
        define sur where "sur \<longleftrightarrow> 0xD800 \<le> uni \<and> uni \<le> 0xDBFF
                                  \<and> take 2 (drop 4 cs') = [0x5C, ord CHR ''u'']"
        have step: "scanstring m bb acc (c # e # xs) =
                (if 0xD800 \<le> uni \<and> uni \<le> 0xDBFF \<and> 10 < length xs
                        \<and> take 2 (drop 4 xs) = [0x5C, ord CHR ''u''] then
                      (case hex4 (take 4 (drop 6 xs)) of
                         None \<Rightarrow>
                           Inl (Malformed (ustr_of ''Invalid '' @ [0x5C] @ ustr_of ''uXXXX escape'')
                                  (pos m (drop 5 xs)))
                       | Some uni2 \<Rightarrow>
                           if 0xDC00 \<le> uni2 \<and> uni2 \<le> 0xDFFF then
                             scanstring m bb
                               (acc @ [0x10000 + ((uni - 0xD800) * 1024 + (uni2 - 0xDC00))])
                               (drop 10 xs)
                           else scanstring m bb (acc @ [uni]) (drop 4 xs))
                    else scanstring m bb (acc @ [uni]) (drop 4 xs))"
          if "4 < length xs" "hex4 (take 4 xs) = Some uni" for m bb xs
          using that nq bs u by (simp del: hex4.simps)
        have len': "4 < length (cs' @ q)" and h': "hex4 (take 4 (cs' @ q)) = Some uni"
          using len h by simp_all
        note here = step [OF len h, of n b] and there = step [OF len' h', of n' b']
        have goal_eq: "scanstring n' b' acc (cs @ q) = scanstring n' b' acc (c # e # (cs' @ q))"
          by (simp add: cs cs0)
        have here_eq: "scanstring n b acc cs = scanstring n b acc (c # e # cs')"
          by (simp add: cs cs0)
        have d4: "drop 4 (cs' @ q) = drop 4 cs' @ q" using len by simp
        show ?thesis
        proof (cases "sur \<and> 10 < length cs'")
          case True
          then have C: "0xD800 \<le> uni \<and> uni \<le> 0xDBFF \<and> 10 < length cs'
                        \<and> take 2 (drop 4 cs') = [0x5C, ord CHR ''u'']"
            by (auto simp: sur_def)
          then have C': "0xD800 \<le> uni \<and> uni \<le> 0xDBFF \<and> 10 < length (cs' @ q)
                        \<and> take 2 (drop 4 (cs' @ q)) = [0x5C, ord CHR ''u'']"
            by auto
          from C have h6: "hex4 (take 4 (drop 6 (cs' @ q))) = hex4 (take 4 (drop 6 cs'))"
            and d10: "drop 10 (cs' @ q) = drop 10 cs' @ q"
            by simp_all
          have here2: "scanstring n b acc (c # e # cs') =
               (case hex4 (take 4 (drop 6 cs')) of
                         None \<Rightarrow>
                           Inl (Malformed (ustr_of ''Invalid '' @ [0x5C] @ ustr_of ''uXXXX escape'')
                                  (pos n (drop 5 cs')))
                       | Some uni2 \<Rightarrow>
                           if 0xDC00 \<le> uni2 \<and> uni2 \<le> 0xDFFF then
                             scanstring n b
                               (acc @ [0x10000 + ((uni - 0xD800) * 1024 + (uni2 - 0xDC00))])
                               (drop 10 cs')
                           else scanstring n b (acc @ [uni]) (drop 4 cs'))"
            by (subst here) (rule if_P [OF C])
          have there2: "scanstring n' b' acc (c # e # (cs' @ q)) =
               (case hex4 (take 4 (drop 6 (cs' @ q))) of
                         None \<Rightarrow>
                           Inl (Malformed (ustr_of ''Invalid '' @ [0x5C] @ ustr_of ''uXXXX escape'')
                                  (pos n' (drop 5 (cs' @ q))))
                       | Some uni2 \<Rightarrow>
                           if 0xDC00 \<le> uni2 \<and> uni2 \<le> 0xDFFF then
                             scanstring n' b'
                               (acc @ [0x10000 + ((uni - 0xD800) * 1024 + (uni2 - 0xDC00))])
                               (drop 10 (cs' @ q))
                           else scanstring n' b' (acc @ [uni]) (drop 4 (cs' @ q)))"
            by (subst there) (rule if_P [OF C'])
          from less.prems here_eq here2 obtain uni2 where
            h2: "hex4 (take 4 (drop 6 cs')) = Some uni2"
            by (cases "hex4 (take 4 (drop 6 cs'))") (simp_all del: hex4.simps scanstring.simps)
          show ?thesis
          proof (cases "0xDC00 \<le> uni2 \<and> uni2 \<le> 0xDFFF")
            case low: True
            have "scanstring n b acc (c # e # cs') =
                    scanstring n b (acc @ [0x10000 + ((uni - 0xD800) * 1024 + (uni2 - 0xDC00))])
                      (drop 10 cs')"
              by (simp only: here2 h2 option.case if_P [OF low])
            with less.prems here_eq have
              rec: "scanstring n b (acc @ [0x10000 + ((uni - 0xD800) * 1024 + (uni2 - 0xDC00))])
                      (drop 10 cs') = Inr (s, r)"
              by simp
            have "scanstring n' b' (acc @ [0x10000 + ((uni - 0xD800) * 1024 + (uni2 - 0xDC00))])
                      (drop 10 cs' @ q) = Inr (s, r @ q)"
              using IH [OF _ rec] cs cs0 by simp
            moreover have "scanstring n' b' acc (c # e # (cs' @ q)) =
                    scanstring n' b' (acc @ [0x10000 + ((uni - 0xD800) * 1024 + (uni2 - 0xDC00))])
                      (drop 10 cs' @ q)"
              by (simp only: there2 h6 h2 option.case if_P [OF low] d10)
            ultimately show ?thesis by (simp only: goal_eq)
          next
            case nlow: False
            have "scanstring n b acc (c # e # cs') = scanstring n b (acc @ [uni]) (drop 4 cs')"
              by (simp only: here2 h2 option.case if_not_P [OF nlow])
            with less.prems here_eq have
              rec: "scanstring n b (acc @ [uni]) (drop 4 cs') = Inr (s, r)"
              by simp
            have "scanstring n' b' (acc @ [uni]) (drop 4 cs' @ q) = Inr (s, r @ q)"
              using IH [OF _ rec] cs cs0 by simp
            moreover have "scanstring n' b' acc (c # e # (cs' @ q)) =
                    scanstring n' b' (acc @ [uni]) (drop 4 cs' @ q)"
              by (simp only: there2 h6 h2 option.case if_not_P [OF nlow] d4)
            ultimately show ?thesis by (simp only: goal_eq)
          qed
        next
          case False
          then have nC: "\<not> (0xD800 \<le> uni \<and> uni \<le> 0xDBFF \<and> 10 < length cs'
                        \<and> take 2 (drop 4 cs') = [0x5C, ord CHR ''u''])"
            by (auto simp: sur_def)
          have "scanstring n b acc (c # e # cs') = scanstring n b (acc @ [uni]) (drop 4 cs')"
            by (subst here) (rule if_not_P [OF nC])
          with less.prems here_eq have
            rec: "scanstring n b (acc @ [uni]) (drop 4 cs') = Inr (s, r)"
            by simp
          have ext: "scanstring n' b' (acc @ [uni]) (drop 4 cs' @ q) = Inr (s, r @ q)"
            using IH [OF _ rec] cs cs0 by simp
          have nC': "\<not> (0xD800 \<le> uni \<and> uni \<le> 0xDBFF \<and> 10 < length (cs' @ q)
                  \<and> take 2 (drop 4 (cs' @ q)) = [0x5C, ord CHR ''u''])"
          proof (cases sur)
            case True
            with False have short: "length cs' \<le> 10" by simp
            from True have "take 2 (drop 4 cs') = [0x5C, ord CHR ''u'']" by (simp add: sur_def)
            then obtain rest where d: "drop 4 cs' = 0x5C # ord CHR ''u'' # rest"
              by (metis append_take_drop_id append_Cons append_Nil)
            have "length (drop 4 cs') \<le> 6" using short by simp
            with d have "length rest \<le> 4" by simp
            from scanstring_short_escape [OF this] rec d show ?thesis by simp
          next
            case ns: False
            show ?thesis
            proof (cases "2 \<le> length (drop 4 cs')")
              case True
              then have "take 2 (drop 4 (cs' @ q)) = take 2 (drop 4 cs')" by simp
              with ns show ?thesis by (auto simp: sur_def)
            next
              case one: False
              with len obtain x where d: "drop 4 cs' = [x]"
                by (cases "drop 4 cs'") (auto simp: Suc_le_eq)
              with rec have "x = 0x22"
                by (auto split: if_splits list.splits)
              with d show ?thesis by (simp only: d4) simp
            qed
          qed
          have "scanstring n' b' acc (c # e # (cs' @ q)) = scanstring n' b' (acc @ [uni]) (drop 4 cs' @ q)"
            by (subst there, subst if_not_P [OF nC'], simp only: d4)
          with ext show ?thesis by (simp only: goal_eq)
        qed
      qed
    qed
  qed
qed



lemma take1_append: "xs \<noteq> [] \<Longrightarrow> take 1 (xs @ q) = take 1 xs"
  by (cases xs) auto

lemma drop1_append: "xs \<noteq> [] \<Longrightarrow> drop 1 (xs @ q) = drop 1 xs @ q"
  by (cases xs) auto

lemma int_part_append:
  assumes "int_part r0 = Some (ds, r2)" and "r2 \<noteq> []"
  shows "int_part (r0 @ q) = Some (ds, r2 @ q)"
proof -
  from assms(1) obtain c r1 where r0: "r0 = c # r1" and dig: "is_digit c"
    unfolding int_part_def by (auto split: list.splits if_splits)
  show ?thesis
  proof (cases "c = ord CHR ''0''")
    case True
    with assms(1) r0 dig show ?thesis by (simp add: int_part_def)
  next
    case False
    with assms(1) r0 dig have ds: "ds = takeWhile is_digit r0" and r2: "r2 = dropWhile is_digit r0"
      by (simp_all add: int_part_def)
    from assms(2) r2 have ne: "dropWhile is_digit r0 \<noteq> []" by simp
    have "int_part (r0 @ q) = Some (takeWhile is_digit (r0 @ q), dropWhile is_digit (r0 @ q))"
      using r0 dig False by (simp add: int_part_def)
    then show ?thesis
      by (simp only: takeWhile_append_nonempty [OF ne] dropWhile_append_nonempty [OF ne] ds r2)
  qed
qed

lemma frac_part_append:
  assumes "frac_part r2 = (frac, r3)" and "r3 \<noteq> []" and "hd r3 \<noteq> ord CHR ''.''"
  shows "frac_part (r2 @ q) = (frac, r3 @ q)"
proof (cases "take 1 r2 = [ord CHR ''.''] \<and> list_ex is_digit (take 1 (drop 1 r2))")
  case True
  then have r2ne: "r2 \<noteq> []" and d1ne: "drop 1 r2 \<noteq> []" by auto
  from True assms(1) have frac: "frac = ord CHR ''.'' # takeWhile is_digit (drop 1 r2)"
    and r3: "r3 = dropWhile is_digit (drop 1 r2)"
    by (auto simp: frac_part_def split: if_splits)
  from assms(2) r3 have ne: "dropWhile is_digit (drop 1 r2) \<noteq> []" by simp
  have c: "take 1 (r2 @ q) = [ord CHR ''.''] \<and> list_ex is_digit (take 1 (drop 1 (r2 @ q)))"
    using True by (simp only: take1_append [OF r2ne] drop1_append [OF r2ne] take1_append [OF d1ne])
  have "frac_part (r2 @ q) = (ord CHR ''.'' # takeWhile is_digit (drop 1 (r2 @ q)),
                             dropWhile is_digit (drop 1 (r2 @ q)))"
    unfolding frac_part_def by (rule if_P [OF c])
  then show ?thesis
    by (simp only: drop1_append [OF r2ne] takeWhile_append_nonempty [OF ne]
          dropWhile_append_nonempty [OF ne] frac r3)
next
  case False
  with assms(1) have frac: "frac = []" and r3: "r3 = r2"
    by (auto simp: frac_part_def split: if_splits)
  from assms(2,3) r3 have n: "take 1 r2 \<noteq> [ord CHR ''.'']" by (cases r2) auto
  have t: "take 1 (r2 @ q) = take 1 r2" using assms(2) r3 by (intro take1_append) simp
  have "\<not> (take 1 (r2 @ q) = [ord CHR ''.'']
                            \<and> list_ex is_digit (take 1 (drop 1 (r2 @ q))))"
    unfolding t using n by blast
  then have "frac_part (r2 @ q) = ([], r2 @ q)"
    unfolding frac_part_def by (rule if_not_P)
  with frac r3 show ?thesis by simp
qed

lemma exp_part_append:
  assumes "exp_part r3 = (ex, r4)" and "r4 \<noteq> []" and "\<not> numchar (hd r4)"
  shows "exp_part (r3 @ q) = (ex, r4 @ q)"
proof -
  define sg where "sg = (if take 1 (drop 1 r3) = [ord CHR ''-''] \<or> take 1 (drop 1 r3) = [ord CHR ''+'']
                then take 1 (drop 1 r3) else [])"
  define sg' where "sg' = (if take 1 (drop 1 (r3 @ q)) = [ord CHR ''-'']
                             \<or> take 1 (drop 1 (r3 @ q)) = [ord CHR ''+'']
                then take 1 (drop 1 (r3 @ q)) else [])"
  have e: "exp_part r3 =
     (if (take 1 r3 = [ord CHR ''e''] \<or> take 1 r3 = [ord CHR ''E''])
            \<and> list_ex is_digit (take 1 (drop (1 + length sg) r3))
         then (take 1 r3 @ sg @ takeWhile is_digit (drop (1 + length sg) r3),
               dropWhile is_digit (drop (1 + length sg) r3))
         else ([], r3))"
    unfolding exp_part_def sg_def Let_def ..
  have e': "exp_part (r3 @ q) =
     (if (take 1 (r3 @ q) = [ord CHR ''e''] \<or> take 1 (r3 @ q) = [ord CHR ''E''])
            \<and> list_ex is_digit (take 1 (drop (1 + length sg') (r3 @ q)))
         then (take 1 (r3 @ q) @ sg' @ takeWhile is_digit (drop (1 + length sg') (r3 @ q)),
               dropWhile is_digit (drop (1 + length sg') (r3 @ q)))
         else ([], r3 @ q))"
    unfolding exp_part_def sg'_def Let_def ..
  show ?thesis
  proof (cases "(take 1 r3 = [ord CHR ''e''] \<or> take 1 r3 = [ord CHR ''E''])
            \<and> list_ex is_digit (take 1 (drop (1 + length sg) r3))")
    case True
    with assms(1) e have ex: "ex = take 1 r3 @ sg @ takeWhile is_digit (drop (1 + length sg) r3)"
      and r4: "r4 = dropWhile is_digit (drop (1 + length sg) r3)"
      by (auto split: if_splits)
    from True have r3ne: "r3 \<noteq> []" and rne: "drop (1 + length sg) r3 \<noteq> []" by auto
    from rne have d1ne: "drop 1 r3 \<noteq> []" by (cases r3) auto
    have sgeq: "sg' = sg"
      unfolding sg'_def sg_def
      by (simp only: drop1_append [OF r3ne] take1_append [OF d1ne])
    from rne have dq: "drop (1 + length sg) (r3 @ q) = drop (1 + length sg) r3 @ q" by simp
    from assms(2) r4 have ne: "dropWhile is_digit (drop (1 + length sg) r3) \<noteq> []" by simp
    have c: "(take 1 (r3 @ q) = [ord CHR ''e''] \<or> take 1 (r3 @ q) = [ord CHR ''E''])
            \<and> list_ex is_digit (take 1 (drop (1 + length sg') (r3 @ q)))"
      using True by (simp only: sgeq dq take1_append [OF r3ne] take1_append [OF rne])
    show ?thesis
      unfolding e' if_P [OF c]
      by (simp only: sgeq dq take1_append [OF r3ne] takeWhile_append_nonempty [OF ne]
            dropWhile_append_nonempty [OF ne] ex r4)
  next
    case False
    with assms(1) e have ex: "ex = []" and r4: "r4 = r3" by (auto split: if_splits)
    from assms(2,3) r4 have n: "take 1 r3 \<noteq> [ord CHR ''e''] \<and> take 1 r3 \<noteq> [ord CHR ''E'']"
      by (cases r3) (auto simp: numchar_def)
    have t: "take 1 (r3 @ q) = take 1 r3" using assms(2) r4 by (intro take1_append) simp
    have "\<not> ((take 1 (r3 @ q) = [ord CHR ''e''] \<or> take 1 (r3 @ q) = [ord CHR ''E''])
            \<and> list_ex is_digit (take 1 (drop (1 + length sg') (r3 @ q))))"
      unfolding t using n by blast
    then show ?thesis
      unfolding e' by (simp only: if_not_P if_False ex r4)
  qed
qed

lemma match_number_append:
  assumes "match_number cs = Some (i, f, e, r)" and "r \<noteq> []" and "\<not> numchar (hd r)"
  shows "match_number (cs @ q) = Some (i, f, e, r @ q)"
proof -
  define sign where "sign = (if take 1 cs = [ord CHR ''-''] then [ord CHR ''-''] else [])"
  from assms(1) obtain ds r2 frac r3 ex where
    ip: "int_part (drop (length sign) cs) = Some (ds, r2)" and
    fp: "frac_part r2 = (frac, r3)" and ep: "exp_part r3 = (ex, r)" and
    res: "i = sign @ ds" "f = frac" "e = ex"
    unfolding match_number_def sign_def [symmetric]
    by (auto simp: Let_def split: option.splits prod.splits)
  from int_part_length [OF ip] frac_part_length [OF fp] exp_part_length [OF ep] assms(2)
  have r3ne: "r3 \<noteq> []" and r2ne: "r2 \<noteq> []" and csne: "drop (length sign) cs \<noteq> []"
    by auto
  then have cne: "cs \<noteq> []" by auto
  have sign': "(if take 1 (cs @ q) = [ord CHR ''-''] then [ord CHR ''-''] else []) = sign"
    unfolding sign_def by (simp only: take1_append [OF cne])
  have dq: "drop (length sign) (cs @ q) = drop (length sign) cs @ q"
    using csne by simp
  have hd3: "hd r3 \<noteq> ord CHR ''.''"
  proof (cases "ex = []")
    case True
    with ep have "r = r3" by (auto simp: exp_part_def Let_def split: if_splits)
    with assms(3) show ?thesis by (auto simp: numchar_def)
  next
    case False
    with ep have "take 1 r3 = [ord CHR ''e''] \<or> take 1 r3 = [ord CHR ''E'']"
      by (auto simp: exp_part_def Let_def split: if_splits)
    then show ?thesis by (cases r3) auto
  qed
  have ip': "int_part (drop (length sign) (cs @ q)) = Some (ds, r2 @ q)"
    unfolding dq using ip r2ne by (rule int_part_append)
  have fp': "frac_part (r2 @ q) = (frac, r3 @ q)"
    using fp r3ne hd3 by (rule frac_part_append)
  have ep': "exp_part (r3 @ q) = (ex, r @ q)"
    using ep assms(2,3) by (rule exp_part_append)
  show ?thesis
    unfolding match_number_def sign' Let_def
    by (simp only: ip' fp' ep' res option.case prod.case)
qed


lemma take_eq_ConsD: "take (Suc k) cs = x # xs \<Longrightarrow> \<exists>cs'. cs = x # cs' \<and> take k cs' = xs"
  by (cases cs) auto

lemma match_number_first:
  "match_number (c # cs) = Some x \<Longrightarrow> is_digit c \<or> c = ord CHR ''-''"
  unfolding match_number_def int_part_def
  by (auto simp: Let_def split: if_splits list.splits option.splits)

lemma match_number_first_None:
  "\<not> is_digit c \<Longrightarrow> c \<noteq> ord CHR ''-'' \<Longrightarrow> match_number (c # cs) = None"
  unfolding match_number_def int_part_def
  by (auto simp: Let_def split: if_splits list.splits option.splits)

lemma match_number_minus_None:
  "\<not> is_digit c \<Longrightarrow> match_number (ord CHR ''-'' # c # cs) = None"
  unfolding match_number_def int_part_def
  by (auto simp: Let_def split: if_splits list.splits option.splits)

lemma scan_atom_append:
  assumes "scan_atom mx n cs = Inr (v, r)"
    and "match_number cs = None \<or> (r \<noteq> [] \<and> \<not> numchar (hd r))"
  shows "scan_atom mx n' (cs @ q) = Inr (v, r @ q)"
proof -
  from assms(1) obtain c cs' where cs: "cs = c # cs'"
    by (cases cs) (auto simp: scan_atom_def match_number_def int_part_def ustr_of_def)
  show ?thesis
  proof (cases "c = 0x22")
    case True
    with assms(1) cs obtain str where
      sc: "scanstring n (pos n cs) [] cs' = Inr (str, r)" and v: "v = JString str"
      by (auto simp: scan_atom_def split: sum.splits)
    from scanstring_append [OF sc, of n' "pos n' (cs @ q)" q] True cs v show ?thesis
      by (simp add: scan_atom_def)
  next
    case nq: False
    show ?thesis
    proof (cases "match_number cs")
      case (Some m)
      obtain i f e r4 where m: "m = (i, f, e, r4)" by (cases m) auto
      from Some cs have first: "is_digit c \<or> c = ord CHR ''-''"
        using match_number_first by blast
      then have lits: "take 4 cs \<noteq> ustr_of ''null''" "take 4 cs \<noteq> ustr_of ''true''"
        "take 5 cs \<noteq> ustr_of ''false''"
        "take 4 (cs @ q) \<noteq> ustr_of ''null''" "take 4 (cs @ q) \<noteq> ustr_of ''true''"
        "take 5 (cs @ q) \<noteq> ustr_of ''false''"
        by (auto simp: cs ustr_of_def is_digit_def)
      from assms(1) nq cs lits Some m have r: "r = r4"
        by (auto simp: scan_atom_def Let_def split: if_splits)
      with assms(2) Some have st: "r4 \<noteq> []" "\<not> numchar (hd r4)" by auto
      have ext: "match_number (cs @ q) = Some (i, f, e, r4 @ q)"
        using Some st unfolding m by (rule match_number_append)
      from assms(1) nq cs lits Some m ext r show ?thesis
        by (auto simp: scan_atom_def Let_def split: if_splits)
    next
      case None
      with assms(1) nq cs have
        "(take 4 cs = ustr_of ''null'' \<and> v = JNull \<and> r = drop 4 cs)
         \<or> (take 4 cs = ustr_of ''true'' \<and> v = JBool True \<and> r = drop 4 cs)
         \<or> (take 5 cs = ustr_of ''false'' \<and> v = JBool False \<and> r = drop 5 cs)
         \<or> (take 3 cs = ustr_of ''NaN'' \<and> v = JFloat (ustr_of ''NaN'') \<and> r = drop 3 cs)
         \<or> (take 8 cs = ustr_of ''Infinity'' \<and> v = JFloat (ustr_of ''Infinity'') \<and> r = drop 8 cs)
         \<or> (take 9 cs = ustr_of ''-Infinity'' \<and> v = JFloat (ustr_of ''-Infinity'') \<and> r = drop 9 cs)"
        by (auto simp: scan_atom_def split: if_splits)
      then consider
          (null) rest where "cs = ustr_of ''null'' @ rest" "v = JNull" "r = rest"
        | (true) rest where "cs = ustr_of ''true'' @ rest" "v = JBool True" "r = rest"
        | (false) rest where "cs = ustr_of ''false'' @ rest" "v = JBool False" "r = rest"
        | (nan) rest where "cs = ustr_of ''NaN'' @ rest" "v = JFloat (ustr_of ''NaN'')" "r = rest"
        | (inf) rest where "cs = ustr_of ''Infinity'' @ rest"
            "v = JFloat (ustr_of ''Infinity'')" "r = rest"
        | (ninf) rest where "cs = ustr_of ''-Infinity'' @ rest"
            "v = JFloat (ustr_of ''-Infinity'')" "r = rest"
        by (metis append_take_drop_id)
      then show ?thesis
      proof cases
        case null
        then show ?thesis by (simp add: scan_atom_def ustr_of_def)
      next
        case true
        then show ?thesis by (simp add: scan_atom_def ustr_of_def)
      next
        case false
        then show ?thesis by (simp add: scan_atom_def ustr_of_def)
      next
        case nan
        have "match_number (78 # 97 # 78 # rest @ q) = None"
          by (rule match_number_first_None) (simp_all add: is_digit_def)
        with nan show ?thesis by (simp add: scan_atom_def ustr_of_def)
      next
        case inf
        have "match_number (73 # 110 # 102 # 105 # 110 # 105 # 116 # 121 # rest @ q) = None"
          by (rule match_number_first_None) (simp_all add: is_digit_def)
        with inf show ?thesis by (simp add: scan_atom_def ustr_of_def)
      next
        case ninf
        have "match_number (ord CHR ''-'' # 73 # 110 # 102 # 105 # 110 # 105 # 116 # 121 # rest @ q) = None"
          by (rule match_number_minus_None) (simp add: is_digit_def)
        with ninf show ?thesis by (simp add: scan_atom_def ustr_of_def)
      qed
    qed
  qed
qed

lemma object_key_append:
  assumes "object_key n cs = Inr (k, r)" and "r \<noteq> []"
  shows "object_key n' (cs @ q) = Inr (k, r @ q)"
proof -
  from assms(1) obtain cs' where cs: "cs = 0x22 # cs'"
    unfolding object_key_def by (cases cs) (auto split: if_splits)
  from assms(1) cs obtain cs1 where
    sc: "scanstring n (pos n cs) [] cs' = Inr (k, cs1)" and
    colon: "take 1 (skip_ws cs1) = [ord CHR '':'']" and
    r: "r = skip_ws (drop 1 (skip_ws cs1))"
    unfolding object_key_def by (auto simp: Let_def split: sum.splits if_splits)
  from colon have ne1: "skip_ws cs1 \<noteq> []" by auto
  from assms(2) r have ne2: "skip_ws (drop 1 (skip_ws cs1)) \<noteq> []" by simp
  then have ne3: "drop 1 (skip_ws cs1) \<noteq> []" by (auto simp: skip_ws_def)
  have a: "skip_ws (cs1 @ q) = skip_ws cs1 @ q" using ne1 by (rule skip_ws_append)
  have b: "skip_ws (drop 1 (skip_ws cs1) @ q) = skip_ws (drop 1 (skip_ws cs1)) @ q"
    using ne2 by (rule skip_ws_append)
  have c: "take 1 (skip_ws cs1 @ q) = [ord CHR '':'']"
    using colon take1_append [OF ne1, of q] by simp
  have d: "drop 1 (skip_ws cs1 @ q) = drop 1 (skip_ws cs1) @ q"
    using ne1 by (rule drop1_append)
  have k1: "take 1 (cs @ q) = [0x22]" and k2: "drop 1 (cs @ q) = cs' @ q"
    by (simp_all add: cs)
  have sc': "scanstring n' (pos n' (cs @ q)) [] (cs' @ q) = Inr (k, cs1 @ q)"
    by (rule scanstring_append [OF sc])
  show ?thesis
    unfolding object_key_def
    by (simp only: k1 k2 sc' sum.case prod.case Let_def a b c d r simp_thms if_False)
qed

lemma after_value_append:
  assumes "after_value n c cs = Inr (b, r)" and "b \<or> r \<noteq> []"
  shows "after_value n' c (cs @ q) = Inr (b, r @ q)"
proof -
  from assms(1) have ne1: "skip_ws cs \<noteq> []"
    unfolding after_value_def by (auto simp: Let_def split: if_splits)
  have a: "skip_ws (cs @ q) = skip_ws cs @ q" using ne1 by (rule skip_ws_append)
  have t: "take 1 (skip_ws cs @ q) = take 1 (skip_ws cs)" using ne1 by (rule take1_append)
  have d: "drop 1 (skip_ws cs @ q) = drop 1 (skip_ws cs) @ q" using ne1 by (rule drop1_append)
  show ?thesis
  proof (cases b)
    case True
    with assms(1) show ?thesis
      unfolding after_value_def Let_def a t d
      by (auto split: if_splits)
  next
    case False
    with assms have r: "r = skip_ws (drop 1 (skip_ws cs))" and ne2: "r \<noteq> []"
      unfolding after_value_def by (auto simp: Let_def split: if_splits)
    then have e: "skip_ws (drop 1 (skip_ws cs) @ q) = skip_ws (drop 1 (skip_ws cs)) @ q"
      by (intro skip_ws_append) simp
    from assms(1) False show ?thesis
      unfolding after_value_def Let_def a t d e
      by (auto split: if_splits)
  qed
qed

lemma scan_once_nonempty: "scan_once mx n d cs = Inr x \<Longrightarrow> cs \<noteq> []"
  by (subst (asm) scan_once.simps)
     (auto simp: scan_atom_def match_number_def int_part_def ustr_of_def)

lemma parse_object_nonempty: "parse_object mx n d pairs cs = Inr x \<Longrightarrow> cs \<noteq> []"
  by (subst (asm) parse_object.simps) (auto simp: object_key_def)

lemma parse_array_nonempty: "parse_array mx n d vals cs = Inr x \<Longrightarrow> cs \<noteq> []"
  by (subst (asm) parse_array.simps) (auto split: sum.splits dest: scan_once_nonempty)

lemma after_value_stable:
  assumes "after_value n c cs = Inr (b, r)" and "\<not> numchar c"
  shows "cs \<noteq> [] \<and> \<not> numchar (hd cs)"
proof -
  from assms(1) have t: "take 1 (skip_ws cs) = [c] \<or> take 1 (skip_ws cs) = [ord CHR '','']"
    unfolding after_value_def by (auto simp: Let_def split: if_splits)
  then have ne: "cs \<noteq> []" by (auto simp: skip_ws_def)
  then obtain x xs where cs: "cs = x # xs" by (cases cs) auto
  show ?thesis
  proof (cases "is_ws x")
    case True
    then show ?thesis by (auto simp: cs is_ws_def numchar_def is_digit_def)
  next
    case False
    then have "skip_ws cs = cs" by (simp add: cs skip_ws_def)
    with t assms(2) show ?thesis by (auto simp: cs numchar_def is_digit_def)
  qed
qed

lemma scan_append:
  "\<forall>v r. scan_once mx n d cs = Inr (v, r)
      \<longrightarrow> (match_number cs = None \<or> (r \<noteq> [] \<and> \<not> numchar (hd r)))
      \<longrightarrow> scan_once mx n' d (cs @ q) = Inr (v, r @ q)"
  "\<forall>v r. parse_object mx n d pairs cs = Inr (v, r)
      \<longrightarrow> parse_object mx n' d pairs (cs @ q) = Inr (v, r @ q)"
  "\<forall>v r. parse_array mx n d vals cs = Inr (v, r)
      \<longrightarrow> parse_array mx n' d vals (cs @ q) = Inr (v, r @ q)"
proof (induction mx n d cs and mx n d pairs cs and mx n d vals cs
       rule: scan_once_parse_object_parse_array.induct)
  case (1 mx n d cs)
  show ?case
  proof (intro allI impI)
    fix v r
    assume ok: "scan_once mx n d cs = Inr (v, r)"
      and st: "match_number cs = None \<or> (r \<noteq> [] \<and> \<not> numchar (hd r))"
    from ok have ne: "cs \<noteq> []" by (rule scan_once_nonempty)
    have t1: "take 1 (cs @ q) = take 1 cs" using ne by (rule take1_append)
    have d1: "drop 1 (cs @ q) = drop 1 cs @ q" using ne by (rule drop1_append)
    define cs1 where "cs1 = skip_ws (drop 1 cs)"
    show "scan_once mx n' d (cs @ q) = Inr (v, r @ q)"
    proof (cases "take 1 cs = [ord CHR ''{'']")
      case obj: True
      with ok have d: "d \<noteq> 0"
        by (subst (asm) scan_once.simps) (auto split: if_splits)
      from ok obj d have
        alt: "(take 1 cs1 = [ord CHR ''}''] \<and> v = JObject [] \<and> r = drop 1 cs1)
              \<or> (take 1 cs1 \<noteq> [ord CHR ''}''] \<and> parse_object mx n (d - 1) [] cs1 = Inr (v, r))"
        by (subst (asm) scan_once.simps) (auto simp: Let_def cs1_def split: if_splits)
      then have ne1: "cs1 \<noteq> []" by (auto dest: parse_object_nonempty)
      have sk: "skip_ws (drop 1 cs @ q) = cs1 @ q"
        unfolding cs1_def using ne1 [unfolded cs1_def] by (rule skip_ws_append)
      have t2: "take 1 (cs1 @ q) = take 1 cs1" using ne1 by (rule take1_append)
      have d2: "drop 1 (cs1 @ q) = drop 1 cs1 @ q" using ne1 by (rule drop1_append)
      have unf: "scan_once mx n' d (cs @ q) =
                  (if take 1 cs1 = [ord CHR ''}''] then Inr (JObject [], drop 1 cs1 @ q)
                   else parse_object mx n' (d - 1) [] (cs1 @ q))"
        by (subst scan_once.simps) (simp only: t1 obj d d1 sk t2 d2 Let_def if_True if_False simp_thms)
      from alt show ?thesis
      proof
        assume "take 1 cs1 = [ord CHR ''}''] \<and> v = JObject [] \<and> r = drop 1 cs1"
        then show ?thesis by (simp only: unf if_True simp_thms)
      next
        assume a: "take 1 cs1 \<noteq> [ord CHR ''}''] \<and> parse_object mx n (d - 1) [] cs1 = Inr (v, r)"
        with "1.IH"(1) [OF obj d cs1_def] have
          "parse_object mx n' (d - 1) [] (cs1 @ q) = Inr (v, r @ q)" by blast
        with a show ?thesis by (simp only: unf if_False simp_thms)
      qed
    next
      case nobj: False
      show ?thesis
      proof (cases "take 1 cs = [ord CHR ''['']")
        case arr: True
        with ok nobj have d: "d \<noteq> 0"
          by (subst (asm) scan_once.simps) (auto split: if_splits)
        from ok nobj arr d have
          alt: "(take 1 cs1 = [ord CHR '']''] \<and> v = JArray [] \<and> r = drop 1 cs1)
                \<or> (take 1 cs1 \<noteq> [ord CHR '']''] \<and> parse_array mx n (d - 1) [] cs1 = Inr (v, r))"
          by (subst (asm) scan_once.simps) (auto simp: Let_def cs1_def split: if_splits)
        then have ne1: "cs1 \<noteq> []" by (auto dest: parse_array_nonempty)
        have sk: "skip_ws (drop 1 cs @ q) = cs1 @ q"
          unfolding cs1_def using ne1 [unfolded cs1_def] by (rule skip_ws_append)
        have t2: "take 1 (cs1 @ q) = take 1 cs1" using ne1 by (rule take1_append)
        have d2: "drop 1 (cs1 @ q) = drop 1 cs1 @ q" using ne1 by (rule drop1_append)
        have neq: "([ord CHR ''[''] = [ord CHR ''{'' :: nat]) = False" by simp
        have unf: "scan_once mx n' d (cs @ q) =
                    (if take 1 cs1 = [ord CHR '']''] then Inr (JArray [], drop 1 cs1 @ q)
                     else parse_array mx n' (d - 1) [] (cs1 @ q))"
          by (subst scan_once.simps)
             (simp only: t1 arr neq d d1 sk t2 d2 Let_def if_True if_False simp_thms)
        from alt show ?thesis
        proof
          assume "take 1 cs1 = [ord CHR '']''] \<and> v = JArray [] \<and> r = drop 1 cs1"
          then show ?thesis by (simp only: unf if_True simp_thms)
        next
          assume a: "take 1 cs1 \<noteq> [ord CHR '']''] \<and> parse_array mx n (d - 1) [] cs1 = Inr (v, r)"
          with "1.IH"(2) [OF nobj arr d cs1_def] have
            "parse_array mx n' (d - 1) [] (cs1 @ q) = Inr (v, r @ q)" by blast
          with a show ?thesis by (simp only: unf if_False simp_thms)
        qed
      next
        case narr: False
        from ok nobj narr have "scan_atom mx n cs = Inr (v, r)"
          by (subst (asm) scan_once.simps) simp
        from scan_atom_append [OF this st, of n' q] show ?thesis
          by (subst scan_once.simps) (simp only: t1 nobj narr if_False simp_thms)
      qed
    qed
  qed
next
  case (2 mx n d pairs cs)
  show ?case
  proof (intro allI impI)
    fix v r
    assume ok: "parse_object mx n d pairs cs = Inr (v, r)"
    then obtain key cs1 val cs2 closed cs3 where
      k: "object_key n cs = Inr (key, cs1)" and
      s: "scan_once mx n d cs1 = Inr (val, cs2)" and
      a: "after_value n (ord CHR ''}'') cs2 = Inr (closed, cs3)" and
      c: "closed \<and> v = JObject (setitem pairs key val) \<and> r = cs3
          \<or> \<not> closed \<and> parse_object mx n d (setitem pairs key val) cs3 = Inr (v, r)"
      by (subst (asm) parse_object.simps)
         (auto split: sum.splits prod.splits if_splits)
    from s have ne1: "cs1 \<noteq> []" by (rule scan_once_nonempty)
    have k': "object_key n' (cs @ q) = Inr (key, cs1 @ q)"
      using k ne1 by (rule object_key_append)
    have st: "cs2 \<noteq> [] \<and> \<not> numchar (hd cs2)"
      using a by (rule after_value_stable) (simp add: numchar_def is_digit_def)
    from "2.IH"(1) [OF k refl] s st have s': "scan_once mx n' d (cs1 @ q) = Inr (val, cs2 @ q)"
      by blast
    from c have "closed \<or> cs3 \<noteq> []" by (auto dest: parse_object_nonempty)
    with a have a': "after_value n' (ord CHR ''}'') (cs2 @ q) = Inr (closed, cs3 @ q)"
      by (rule after_value_append)
    have unf: "parse_object mx n' d pairs (cs @ q) =
                 (if closed then Inr (JObject (setitem pairs key val), cs3 @ q)
                  else parse_object mx n' d (setitem pairs key val) (cs3 @ q))"
      by (subst parse_object.simps) (simp only: k' s' a' sum.case prod.case)
    from c show "parse_object mx n' d pairs (cs @ q) = Inr (v, r @ q)"
    proof
      assume "closed \<and> v = JObject (setitem pairs key val) \<and> r = cs3"
      then show ?thesis by (simp only: unf if_True simp_thms)
    next
      assume nc: "\<not> closed \<and> parse_object mx n d (setitem pairs key val) cs3 = Inr (v, r)"
      with "2.IH"(2) [OF k refl s refl a refl] have
        "parse_object mx n' d (setitem pairs key val) (cs3 @ q) = Inr (v, r @ q)" by blast
      with nc show ?thesis by (simp only: unf if_False simp_thms)
    qed
  qed
next
  case (3 mx n d vals cs)
  show ?case
  proof (intro allI impI)
    fix v r
    assume ok: "parse_array mx n d vals cs = Inr (v, r)"
    then obtain val cs2 closed cs3 where
      s: "scan_once mx n d cs = Inr (val, cs2)" and
      a: "after_value n (ord CHR '']'') cs2 = Inr (closed, cs3)" and
      c: "closed \<and> v = JArray (vals @ [val]) \<and> r = cs3
          \<or> \<not> closed \<and> parse_array mx n d (vals @ [val]) cs3 = Inr (v, r)"
      by (subst (asm) parse_array.simps)
         (auto split: sum.splits prod.splits if_splits)
    have st: "cs2 \<noteq> [] \<and> \<not> numchar (hd cs2)"
      using a by (rule after_value_stable) (simp add: numchar_def is_digit_def)
    from "3.IH"(1) s st have s': "scan_once mx n' d (cs @ q) = Inr (val, cs2 @ q)"
      by blast
    from c have "closed \<or> cs3 \<noteq> []" by (auto dest: parse_array_nonempty)
    with a have a': "after_value n' (ord CHR '']'') (cs2 @ q) = Inr (closed, cs3 @ q)"
      by (rule after_value_append)
    have unf: "parse_array mx n' d vals (cs @ q) =
                 (if closed then Inr (JArray (vals @ [val]), cs3 @ q)
                  else parse_array mx n' d (vals @ [val]) (cs3 @ q))"
      by (subst parse_array.simps) (simp only: s' a' sum.case prod.case)
    from c show "parse_array mx n' d vals (cs @ q) = Inr (v, r @ q)"
    proof
      assume "closed \<and> v = JArray (vals @ [val]) \<and> r = cs3"
      then show ?thesis by (simp only: unf if_True simp_thms)
    next
      assume nc: "\<not> closed \<and> parse_array mx n d (vals @ [val]) cs3 = Inr (v, r)"
      with "3.IH"(2) [OF s refl a refl] have
        "parse_array mx n' d (vals @ [val]) (cs3 @ q) = Inr (v, r @ q)" by blast
      with nc show ?thesis by (simp only: unf if_False simp_thms)
    qed
  qed
qed

subsection \<open>The loop that removes final characters\<close>

lemma match_number_brace: "take 1 p = [ord CHR ''{''] \<Longrightarrow> match_number p = None"
  by (cases p) (auto simp: match_number_first_None is_digit_def)

lemma loads_extend:
  assumes "take 1 p = [ord CHR ''{'']" and "loads mx d p = Inr v"
  shows "loads mx d (p @ q) = Inr v
         \<or> (\<exists>e. loads mx d (p @ q) = Inl e \<and> exn_class e = JSONDecodeError)"
proof -
  from assms(1) obtain p' where p: "p = ord CHR ''{'' # p'" by (cases p) auto
  have sk: "skip_ws p = p" "skip_ws (p @ q) = p @ q"
    by (simp_all add: p skip_ws_def is_ws_def)
  have nb: "take 1 p \<noteq> [0xFEFF]" "take 1 (p @ q) \<noteq> [0xFEFF]" by (simp_all add: p)
  from assms(2) nb sk obtain rest where
    s: "scan_once mx (length p) d p = Inr (v, rest)"
    unfolding loads_def by (auto split: sum.splits prod.splits if_splits)
  from scan_append(1) [of mx "length p" d p "length (p @ q)" q] s match_number_brace [OF assms(1)]
  have "scan_once mx (length (p @ q)) d (p @ q) = Inr (v, rest @ q)" by blast
  then show ?thesis
    unfolding loads_def using nb sk by (simp del: take_append)
qed

lemma loads_prefix_stable:
  assumes "take 1 s = [ord CHR ''{'']" and "0 < k" and "k \<le> j"
    and "loads mx d (take k s) = Inr v"
  shows "loads mx d (take j s) = Inr v
         \<or> (\<exists>e. loads mx d (take j s) = Inl e \<and> exn_class e = JSONDecodeError)"
proof -
  have "take j s = take k s @ take (j - k) (drop k s)"
    using assms(3) by (metis le_add_diff_inverse take_add)
  moreover from assms(1,2) have "take 1 (take k s) = [ord CHR ''{'']"
    by (cases s; cases k) auto
  ultimately show ?thesis using loads_extend [OF _ assms(4)] by simp
qed

lemma refinement_finds:
  assumes "0 < k" and "k \<le> length s" and "\<not> decode_fails env (take k s)"
    and "\<forall>j. k < j \<and> j \<le> length s \<longrightarrow> decode_fails env (take j s)"
  shows "iterative_refinement env s
           = Some (loads (max_str_digits env) (max_depth env) (take k s))"
  using assms
proof (induction env s rule: iterative_refinement.induct)
  case (1 env s)
  from "1.prems"(1,2) have ne: "s \<noteq> []" by auto
  show ?case
  proof (cases "k = length s")
    case True
    with "1.prems"(3) ne show ?thesis
      by (subst iterative_refinement.simps)
         (auto simp: decode_fails_def split: sum.splits)
  next
    case False
    with "1.prems"(2) have lt: "k < length s" by simp
    with "1.prems"(4) have "decode_fails env (take (length s) s)" by blast
    then obtain e where e: "loads (max_str_digits env) (max_depth env) s = Inl e"
      and dec: "exn_class e = JSONDecodeError"
      by (auto simp: decode_fails_def split: sum.splits)
    have tk: "take j (butlast s) = take j s" if "j \<le> length s - 1" for j
      using that by (simp add: butlast_conv_take min_def)
    have "iterative_refinement env (butlast s)
            = Some (loads (max_str_digits env) (max_depth env) (take k (butlast s)))"
    proof (rule "1.IH" [OF ne e dec "1.prems"(1)])
      show "k \<le> length (butlast s)" using lt by simp
      show "\<not> decode_fails env (take k (butlast s))"
        using "1.prems"(3) lt by (simp add: tk)
      show "\<forall>j. k < j \<and> j \<le> length (butlast s) \<longrightarrow> decode_fails env (take j (butlast s))"
        using "1.prems"(4) by (auto simp: tk)
    qed
    with ne e dec lt show ?thesis
      by (subst iterative_refinement.simps) (simp add: tk)
  qed
qed

lemma refinement_exhausted:
  assumes "\<forall>j. 0 < j \<and> j \<le> length s \<longrightarrow> decode_fails env (take j s)"
  shows "iterative_refinement env s = None"
  using assms
proof (induction env s rule: iterative_refinement.induct)
  case (1 env s)
  show ?case
  proof (cases "s = []")
    case True
    then show ?thesis by (subst iterative_refinement.simps) simp
  next
    case ne: False
    with "1.prems" have "decode_fails env (take (length s) s)" by blast
    then obtain e where e: "loads (max_str_digits env) (max_depth env) s = Inl e"
      and dec: "exn_class e = JSONDecodeError"
      by (auto simp: decode_fails_def split: sum.splits)
    have tk: "take j (butlast s) = take j s" if "j \<le> length s - 1" for j
      using that by (simp add: butlast_conv_take min_def)
    have "iterative_refinement env (butlast s) = None"
    proof (rule "1.IH" [OF ne e dec])
      show "\<forall>j. 0 < j \<and> j \<le> length (butlast s) \<longrightarrow> decode_fails env (take j (butlast s))"
        using "1.prems" by (auto simp: tk)
    qed
    with ne e dec show ?thesis
      by (subst iterative_refinement.simps) simp
  qed
qed

subsection \<open>The recovery of \<open>analyze_transcript\<close>\<close>

lemmas json_eval =
  loads_def scan_once.simps parse_object.simps parse_array.simps object_key_def
  after_value_def scan_atom_def skip_ws_def is_ws_def pos_def ustr_of_def
  raise_of_def JSONDecodeError_str_def match_number_def int_part_def frac_part_def
  exp_part_def is_digit_def parse_int_def str_nat.simps

lemma all_nat_between:
  "(\<forall>j. a < j \<and> j \<le> b \<longrightarrow> P j) \<longleftrightarrow> (\<forall>j\<in>set [Suc a..<Suc b]. P j)"
  by (simp only: set_upt Ball_def atLeastLessThan_iff Suc_le_eq less_Suc_eq_le)

lemma robust_parsing_fst_world:
  "fst (robust_parsing env raw_text w) = fst (robust_parsing env raw_text w')"
  unfolding robust_parsing_def
  by (simp add: Let_def split: sum.splits option.splits)

lemma iterative_refinement_exn:
  "iterative_refinement env s = Some (Inl e) \<Longrightarrow> exn_class e \<noteq> JSONDecodeError"
proof (induction env s rule: iterative_refinement.induct)
  case (1 env s)
  from "1.prems" show ?case
    by (subst (asm) iterative_refinement.simps)
       (auto split: if_splits sum.splits dest: "1.IH")
qed

lemma robust_parsing_exn:
  "fst (robust_parsing env raw_text w) = Inl e \<Longrightarrow> exn_class e \<noteq> JSONDecodeError"
  unfolding robust_parsing_def
  by (auto simp: Let_def split: sum.splits option.splits if_splits
           dest: iterative_refinement_exn)

lemma analyze_transcript_handles:
  assumes "generate_content env (analysis_prompt transcript) = Inr raw"
  shows "fst (analyze_transcript env transcript w)
           = (case fst (robust_parsing env (strip raw) w) of
                Inr analysis \<Rightarrow> analysis
              | Inl e \<Rightarrow> error_dict (exn_str e))"
proof -
  define w1 where "w1 = print (ustr_of ''Raw Gemini Response (Analysis):\<newline> '' @ strip raw)
                     (send (CompletionRequest (analysis_prompt transcript)) w)"
  have eq: "fst (robust_parsing env (strip raw) w) = fst (robust_parsing env (strip raw) w1)"
    by (rule robust_parsing_fst_world)
  show ?thesis
  proof (cases "robust_parsing env (strip raw) w1")
    case (Pair r w')
    show ?thesis
    proof (cases r)
      case (Inr a)
      with Pair assms show ?thesis
        by (simp add: analyze_transcript_def Let_def eq flip: w1_def)
    next
      case (Inl e)
      with Pair have "exn_class e \<noteq> JSONDecodeError"
        using robust_parsing_exn [of env "strip raw" w1 e] by simp
      with Inl Pair assms show ?thesis
        by (simp add: analyze_transcript_def Let_def eq flip: w1_def)
    qed
  qed
qed

lemma robust_parsing_candidate:
  assumes "ord CHR ''{'' \<notin> set pre" and "ord CHR ''}'' \<notin> set suf"
  shows "fst (robust_parsing env (pre @ [ord CHR ''{''] @ mid @ [ord CHR ''}''] @ suf) w)
     = (case loads (max_str_digits env) (max_depth env) ([ord CHR ''{''] @ mid @ [ord CHR ''}'']) of
          Inr analysis \<Rightarrow> Inr analysis
        | Inl e_inner \<Rightarrow>
            if exn_class e_inner = JSONDecodeError then
              (case iterative_refinement env ([ord CHR ''{''] @ mid @ [ord CHR ''}'']) of
                 Some r \<Rightarrow> r
               | None \<Rightarrow>
                   Inr (error_dict
                          (ustr_of ''The model's response was not valid JSON after refinement: ''
                             @ exn_str e_inner)))
            else Inl e_inner)"
proof -
  note d = candidate_decomp [OF assms, of mid]
  have "str_find (pre @ [ord CHR ''{''] @ mid @ [ord CHR ''}''] @ suf) (ord CHR ''{'') \<noteq> - 1
        \<and> str_rfind (pre @ [ord CHR ''{''] @ mid @ [ord CHR ''}''] @ suf) (ord CHR ''}'') \<noteq> - 1
        \<and> str_find (pre @ [ord CHR ''{''] @ mid @ [ord CHR ''}''] @ suf) (ord CHR ''{'')
            < str_rfind (pre @ [ord CHR ''{''] @ mid @ [ord CHR ''}''] @ suf) (ord CHR ''}'')"
    unfolding d(1,2) by simp
  then show ?thesis
    unfolding robust_parsing_def Let_def
    by (simp only: if_True d(3)) (simp split: sum.splits option.splits)
qed

lemma analyze_candidate:
  assumes llm: "generate_content env (analysis_prompt transcript)
                  = Inr (pre @ [ord CHR ''{''] @ mid @ [ord CHR ''}''] @ suf)"
    and pre: "ord CHR ''{'' \<notin> set pre" and suf: "ord CHR ''}'' \<notin> set suf"
  shows "fst (analyze_transcript env transcript w)
     = (case loads (max_str_digits env) (max_depth env) ([ord CHR ''{''] @ mid @ [ord CHR ''}'']) of
          Inr analysis \<Rightarrow> analysis
        | Inl e_inner \<Rightarrow>
            if exn_class e_inner = JSONDecodeError then
              (case iterative_refinement env ([ord CHR ''{''] @ mid @ [ord CHR ''}'']) of
                 Some (Inr analysis) \<Rightarrow> analysis
               | Some (Inl e) \<Rightarrow> error_dict (exn_str e)
               | None \<Rightarrow>
                   error_dict
                     (ustr_of ''The model's response was not valid JSON after refinement: ''
                        @ exn_str e_inner))
            else error_dict (exn_str e_inner))"
proof -
  have ns: "\<not> isspace (ord CHR ''{'')" "\<not> isspace (ord CHR ''}'')"
    by (simp_all add: isspace_def)
  have s: "strip (pre @ [ord CHR ''{''] @ mid @ [ord CHR ''}''] @ suf)
             = dropWhile isspace pre @ [ord CHR ''{''] @ mid @ [ord CHR ''}'']
               @ rev (dropWhile isspace (rev suf))"
    using ns by (rule strip_around)
  have pre': "ord CHR ''{'' \<notin> set (dropWhile isspace pre)"
    using pre by (auto dest: set_dropWhileD)
  have suf': "ord CHR ''}'' \<notin> set (rev (dropWhile isspace (rev suf)))"
    using suf by (auto dest: set_dropWhileD)
  show ?thesis
    unfolding analyze_transcript_handles [OF llm] s robust_parsing_candidate [OF pre' suf']
    by (simp split: sum.splits option.splits)
qed

lemma refinement_prefix:
  "iterative_refinement env s = Some r
     \<Longrightarrow> \<exists>k. 0 < k \<and> k \<le> length s \<and> r = loads (max_str_digits env) (max_depth env) (take k s)"
proof (induction env s rule: iterative_refinement.induct)
  case (1 env s)
  show ?case
  proof (cases "s = []")
    case True
    with "1.prems" show ?thesis by (simp add: iterative_refinement.simps [of env "[]"])
  next
    case ne: False
    show ?thesis
    proof (cases "decode_fails env s")
      case False
      with "1.prems" ne have "r = loads (max_str_digits env) (max_depth env) s"
        by (auto simp: iterative_refinement.simps [of env s] decode_fails_def split: sum.splits)
      with ne show ?thesis by (intro exI [of _ "length s"]) simp
    next
      case True
      then obtain e where e: "loads (max_str_digits env) (max_depth env) s = Inl e"
        and dec: "exn_class e = JSONDecodeError"
        by (auto simp: decode_fails_def split: sum.splits)
      with "1.prems" ne have "iterative_refinement env (butlast s) = Some r"
        by (simp add: iterative_refinement.simps [of env s])
      from "1.IH" [OF ne e dec this] obtain k where
        k: "0 < k" "k \<le> length (butlast s)"
           "r = loads (max_str_digits env) (max_depth env) (take k (butlast s))" by blast
      from k(2) have le: "k \<le> length s - 1" by simp
      then have tk: "take k (butlast s) = take k s" by (simp add: butlast_conv_take min_def)
      from le have "k \<le> length s" by simp
      with k(1,3) tk show ?thesis by (intro exI [of _ k]) simp
    qed
  qed
qed

lemma str_find_nth:
  assumes "c \<in> set s"
  shows "nat (str_find s c) < length s" and "s ! nat (str_find s c) = c"
proof -
  have l: "length (takeWhile (\<lambda>x. x \<noteq> c) s) < length s"
    using assms by (rule takeWhile_stops_early)
  then show "nat (str_find s c) < length s" using assms by (simp add: str_find_def)
  from nth_length_takeWhile [OF l] show "s ! nat (str_find s c) = c"
    using assms by (simp add: str_find_def)
qed

lemma str_rfind_nth:
  assumes "c \<in> set s"
  shows "nat (str_rfind s c) < length s" and "s ! nat (str_rfind s c) = c"
proof -
  define k where "k = length (takeWhile (\<lambda>x. x \<noteq> c) (rev s))"
  have l: "k < length (rev s)"
    unfolding k_def using assms by (intro takeWhile_stops_early) simp
  then have lk: "k < length s" by simp
  have r: "nat (str_rfind s c) = length s - Suc k"
    using assms lk by (simp add: str_rfind_def k_def)
  show "nat (str_rfind s c) < length s" unfolding r using lk by simp
  from nth_length_takeWhile [OF l [unfolded k_def]] have "rev s ! k = c" by (simp add: k_def)
  then show "s ! nat (str_rfind s c) = c" unfolding r using lk by (simp add: rev_nth)
qed

subsection \<open>The handlers\<close>

lemma get_transcript_fst_world:
  "fst (get_transcript env video_id lang_code w) = fst (get_transcript env video_id lang_code w')"
  by (simp add: get_transcript_def split: sum.splits)

lemma get_transcript_requests:
  "requests (snd (get_transcript env video_id lang_code w))
     = requests w @ [TranscriptRequest video_id [lang_code]]"
  by (simp add: get_transcript_def print_def send_def split: sum.splits)

lemma robust_parsing_requests:
  "requests (snd (robust_parsing env raw_text w)) = requests w"
  by (simp add: robust_parsing_def Let_def print_def split: sum.splits option.splits)

lemma analyze_transcript_requests:
  "requests (snd (analyze_transcript env transcript w))
     = requests w @ [CompletionRequest (analysis_prompt transcript)]"
proof (cases "generate_content env (analysis_prompt transcript)")
  case (Inl e)
  then show ?thesis by (simp add: analyze_transcript_def print_def send_def)
next
  case (Inr raw)
  define w1 where "w1 = print (ustr_of ''Raw Gemini Response (Analysis):\<newline> '' @ strip raw)
                     (send (CompletionRequest (analysis_prompt transcript)) w)"
  have r: "requests (snd (robust_parsing env (strip raw) w1))
             = requests w @ [CompletionRequest (analysis_prompt transcript)]"
    by (simp add: robust_parsing_requests w1_def print_def send_def)
  show ?thesis
  proof (cases "robust_parsing env (strip raw) w1")
    case (Pair res w')
    with r have "requests w' = requests w @ [CompletionRequest (analysis_prompt transcript)]"
      by simp
    with Pair Inr show ?thesis
    proof (cases res)
      case (Inl e)
      have "requests (print line w') = requests w'" for line by (simp add: print_def)
      with Inl Pair Inr \<open>requests w' = requests w @ [CompletionRequest (analysis_prompt transcript)]\<close>
      show ?thesis by (simp add: analyze_transcript_def Let_def flip: w1_def)
    next
      case r: (Inr a)
      with Pair Inr \<open>requests w' = requests w @ [CompletionRequest (analysis_prompt transcript)]\<close>
      show ?thesis by (simp add: analyze_transcript_def Let_def flip: w1_def)
    qed
  qed
qed

lemma analyze_transcript_fst_world:
  "fst (analyze_transcript env transcript w) = fst (analyze_transcript env transcript w')"
proof (cases "generate_content env (analysis_prompt transcript)")
  case (Inl e)
  then show ?thesis by (simp add: analyze_transcript_def)
next
  case (Inr raw)
  show ?thesis
    unfolding analyze_transcript_handles [OF Inr]
    by (simp add: robust_parsing_fst_world [of env "strip raw" w w'])
qed

lemma truthy_analysis:
  "truthy (fst (analyze_transcript env transcript w))
     \<longleftrightarrow> fst (analyze_transcript env transcript w) \<noteq> JObject []"
  using analyze_transcript_is_object [of env transcript w] by auto

text \<open>The handler of \<open>/\<close> once the video id is known.\<close>

lemma index_with_id:
  assumes "http_method req = ''POST''"
    and "extract_video_id env (form req ''video_url'') = Inr (Some video_id)"
    and "video_id \<noteq> []"
  shows "index env req w
     = (case get_transcript env video_id (ustr_of ''en'') w of
          (transcript_en, w1) \<Rightarrow>
            (case (if transcript_en = None \<or> transcript_en = Some []
                   then get_transcript env video_id (ustr_of ''hi'') w1
                   else (transcript_en, w1)) of
               (transcript, w2) \<Rightarrow>
                 if transcript \<noteq> None \<and> transcript \<noteq> Some [] then
                   (case analyze_transcript env (the transcript) w2 of
                      (analysis, w3) \<Rightarrow>
                        if analysis \<noteq> JObject [] then
                          (Inr (Html ''result.html'' [(''analysis'', analysis)]), w3)
                        else
                          (Inr (Text (ustr_of ''Error analyzing the transcript using Google Gemini API.'') 500),
                           w3))
                 else
                   (Inr (Text (ustr_of ''Unable to extract transcript from the video. It may be unavailable in the specified languages.'') 500),
                    w2)))"
proof -
  have t: "truthy analysis \<longleftrightarrow> analysis \<noteq> JObject []"
    if "analyze_transcript env tr w2 = (analysis, w3)" for tr w2 analysis w3
    using truthy_analysis [of env tr w2] that by simp
  show ?thesis
    using assms
    by (auto simp: index_def Let_def not_str_def t split: prod.splits)
qed

subsection \<open>Evaluating \<open>extract_video_id\<close>\<close>

lemmas url_eval =
  extract_video_id_def urlparse_def urlsplit_def hostname_def str_partition_def
  is_ascii_alpha_def scheme_char_def lower_char_def uses_params_def netloc_delim_def
  splitparams_def parse_qs_def parse_qsl_def unquote_plus_def unquote_def getitem_def
  hex_val_def Let_def ustr_of_def

section \<open>Properties of the transcript fetcher and of the question answerer\<close>

text \<open>
  C7: when the transcript service returns its fragments, \<open>get_transcript\<close> returns
  the first fragment's text followed by every later fragment's text, each after one
  space (code point 32), in the order given and with the texts themselves unchanged,
  and it prints nothing; when the service raises, it returns \<open>None\<close> and the only
  trace is one printed line that carries the exception's message.
\<close>

theorem get_transcript_joins_or_absent:
  "(get_transcript_api env video_id [lang_code] = Inr transcript_list \<longrightarrow>
      fst (get_transcript env video_id lang_code w)
        = Some (case map item_text transcript_list of
                  [] \<Rightarrow> []
                | first # others \<Rightarrow> first @ concat (map (\<lambda>t. 32 # t) others))
      \<and> stdout (snd (get_transcript env video_id lang_code w)) = stdout w)
   \<and> (get_transcript_api env video_id [lang_code] = Inl e \<longrightarrow>
      fst (get_transcript env video_id lang_code w) = None
      \<and> stdout (snd (get_transcript env video_id lang_code w))
          = stdout w @ [map of_char ''Error fetching transcript: '' @ exn_str e])"
proof -
  have "str_join [32] xs = (case xs of [] \<Rightarrow> [] | x # r \<Rightarrow> x @ concat (map (\<lambda>t. 32 # t) r))"
    for xs :: "ustr list"
  proof -
    have "(@) [32 :: nat] = (#) 32" by (rule ext) simp
    then show ?thesis by (simp add: str_join_concat split: list.split)
  qed
  then show ?thesis
    by (simp add: get_transcript_def print_def send_def ustr_of_def)
qed

theorem get_transcript_joins_or_absent_witness:
  "fst (get_transcript
          (default_env
             (\<lambda>v l. Inr [\<lparr>item_text = [97, 32, 32, 98]\<rparr>, \<lparr>item_text = [99]\<rparr>,
                         \<lparr>item_text = []\<rparr>, \<lparr>item_text = [100, 10]\<rparr>, \<lparr>item_text = [101]\<rparr>])
             (\<lambda>p. Inr []))
          [120] [101, 110] world0)
     = Some [97, 32, 32, 98, 32, 99, 32, 32, 100, 10, 32, 101]
   \<and> get_transcript
        (default_env (\<lambda>v l. Inl (Exn OtherException [111, 102, 102])) (\<lambda>p. Inr []))
        [120] [101, 110] world0
     = (None,
        \<lparr>stdout = [map of_char ''Error fetching transcript: off''],
         requests = [TranscriptRequest [120] [[101, 110]]]\<rparr>)"
  using
    get_transcript_joins_or_absent [of
      "default_env
         (\<lambda>v l. Inr [\<lparr>item_text = [97, 32, 32, 98]\<rparr>, \<lparr>item_text = [99]\<rparr>,
                     \<lparr>item_text = []\<rparr>, \<lparr>item_text = [100, 10]\<rparr>, \<lparr>item_text = [101]\<rparr>])
         (\<lambda>p. Inr [])"
      "[120]" "[101, 110]"
      "[\<lparr>item_text = [97, 32, 32, 98]\<rparr>, \<lparr>item_text = [99]\<rparr>,
        \<lparr>item_text = []\<rparr>, \<lparr>item_text = [100, 10]\<rparr>, \<lparr>item_text = [101]\<rparr>]"
      world0]
    get_transcript_joins_or_absent [of
      "default_env (\<lambda>v l. Inl (Exn OtherException [111, 102, 102])) (\<lambda>p. Inr [])"
      "[120]" "[101, 110]" _ world0 "Exn OtherException [111, 102, 102]"]
  by (simp add: default_env_def world0_def get_transcript_def print_def send_def ustr_of_def)

text \<open>
  C9: when the completion returns a text, \<open>answer_question\<close> returns that text without
  its leading and trailing white space: the text is the result between two runs of
  white-space code points (those of \<open>str.isspace\<close>), and the result neither starts nor
  ends with one. When the completion raises, it returns the fixed apology. It has no
  other outcome. Hence the ask handler, given a question and a transcript that are not
  empty, answers with status 200 and an \<open>answer\<close> member, which is the apology when
  the completion raises.
\<close>

theorem answer_question_never_fails:
  "(generate_content env (answer_prompt question transcript) = Inr completion \<longrightarrow>
      (\<exists>before after.
         completion = before @ fst (answer_question env question transcript w) @ after
         \<and> set before \<union> set after
             \<subseteq> {9, 10, 11, 12, 13, 28, 29, 30, 31, 32, 133, 160, 5760, 8232, 8233, 8239,
                8287, 12288} \<union> {8192..8202})
      \<and> (fst (answer_question env question transcript w) \<noteq> [] \<longrightarrow>
           {hd (fst (answer_question env question transcript w)),
            last (fst (answer_question env question transcript w))}
             \<inter> ({9, 10, 11, 12, 13, 28, 29, 30, 31, 32, 133, 160, 5760, 8232, 8233, 8239,
                 8287, 12288} \<union> {8192..8202}) = {}))
   \<and> (generate_content env (answer_prompt question transcript) = Inl e \<longrightarrow>
        fst (answer_question env question transcript w)
          = map of_char ''Sorry, I could not generate an answer at this time.'')
   \<and> (json_data req (map of_char ''question'') = Some question \<and> question \<noteq> []
        \<and> json_data req (map of_char ''transcript'') = Some transcript \<and> transcript \<noteq> []
      \<longrightarrow> fst (ask_question_route env req w)
            = Jsonify [(map of_char ''answer'',
                        JString (fst (answer_question env question transcript w)))] 200)"
proof -
  define WS :: "nat set" where
    "WS = {9, 10, 11, 12, 13, 28, 29, 30, 31, 32, 133, 160, 5760, 8232, 8233, 8239,
           8287, 12288} \<union> {8192..8202}"
  have ws: "isspace c \<longleftrightarrow> c \<in> WS" for c
    unfolding isspace_def WS_def by auto
  have 1: "\<exists>before after.
         completion = before @ fst (answer_question env question transcript w) @ after
         \<and> set before \<union> set after \<subseteq> WS"
    if "generate_content env (answer_prompt question transcript) = Inr completion"
  proof -
    from strip_decomp [of completion] obtain pre suf where
      "completion = pre @ strip completion @ suf"
      "\<forall>c\<in>set pre. isspace c" "\<forall>c\<in>set suf. isspace c" by blast
    moreover from that have "fst (answer_question env question transcript w) = strip completion"
      by (simp add: answer_question_def Let_def)
    ultimately show ?thesis unfolding ws by (intro exI [of _ pre] exI [of _ suf]) auto
  qed
  have 2: "{hd (fst (answer_question env question transcript w)),
            last (fst (answer_question env question transcript w))} \<inter> WS = {}"
    if "generate_content env (answer_prompt question transcript) = Inr completion"
      and "fst (answer_question env question transcript w) \<noteq> []"
  proof -
    from that(1) have eq: "fst (answer_question env question transcript w) = strip completion"
      by (simp add: answer_question_def Let_def)
    with that(2) have "strip completion \<noteq> []" by simp
    from strip_ends [OF this] show ?thesis unfolding eq ws by simp
  qed
  have 3: "fst (answer_question env question transcript w)
          = map of_char ''Sorry, I could not generate an answer at this time.''"
    if "generate_content env (answer_prompt question transcript) = Inl e"
    using that by (simp add: answer_question_def Let_def ustr_of_def)
  have 4: "fst (ask_question_route env req w)
            = Jsonify [(map of_char ''answer'',
                        JString (fst (answer_question env question transcript w)))] 200"
    if "json_data req (map of_char ''question'') = Some question \<and> question \<noteq> []
        \<and> json_data req (map of_char ''transcript'') = Some transcript \<and> transcript \<noteq> []"
    using that
    by (auto simp: ask_question_route_def not_str_def Let_def ustr_of_def split: prod.splits)
  from 1 2 3 4 show ?thesis unfolding WS_def by blast
qed

theorem answer_question_never_fails_witness:
  "fst (answer_question
          (default_env (\<lambda>v l. Inr []) (\<lambda>p. Inr [32, 10, 104, 105, 32, 9, 33, 160, 13, 10]))
          [119, 104, 121, 63] [98, 101] world0)
     = [104, 105, 32, 9, 33]
   \<and> fst (ask_question_route
          (default_env (\<lambda>v l. Inr []) (\<lambda>p. Inl (Exn OtherException [113])))
          \<lparr>http_method = ''POST'', form = Map.empty,
           json_data = [map of_char ''question'' \<mapsto> [119, 104, 121, 63],
                        map of_char ''transcript'' \<mapsto> [98, 101]]\<rparr>
          world0)
     = Jsonify [(map of_char ''answer'',
                 JString (map of_char ''Sorry, I could not generate an answer at this time.''))] 200
   \<and> fst (ask_question_route
          (default_env (\<lambda>v l. Inr []) (\<lambda>p. Inr [32, 10, 104, 105, 32, 9, 33, 160, 13, 10]))
          \<lparr>http_method = ''POST'', form = Map.empty,
           json_data = [map of_char ''question'' \<mapsto> [119, 104, 121, 63],
                        map of_char ''transcript'' \<mapsto> [98, 101]]\<rparr>
          world0)
     = Jsonify [(map of_char ''answer'', JString [104, 105, 32, 9, 33])] 200"
  using
    answer_question_never_fails [of
      "default_env (\<lambda>v l. Inr []) (\<lambda>p. Inr [32, 10, 104, 105, 32, 9, 33, 160, 13, 10])"
      "[119, 104, 121, 63]" "[98, 101]" "[32, 10, 104, 105, 32, 9, 33, 160, 13, 10]" world0 _
      "\<lparr>http_method = ''POST'', form = Map.empty,
        json_data = [map of_char ''question'' \<mapsto> [119, 104, 121, 63],
                     map of_char ''transcript'' \<mapsto> [98, 101]]\<rparr>"]
    answer_question_never_fails [of
      "default_env (\<lambda>v l. Inr []) (\<lambda>p. Inl (Exn OtherException [113]))"
      "[119, 104, 121, 63]" "[98, 101]" _ world0 "Exn OtherException [113]"
      "\<lparr>http_method = ''POST'', form = Map.empty,
        json_data = [map of_char ''question'' \<mapsto> [119, 104, 121, 63],
                     map of_char ''transcript'' \<mapsto> [98, 101]]\<rparr>"]
  by (simp add: default_env_def world0_def answer_question_def ask_question_route_def
        not_str_def strip_def isspace_def print_def send_def ustr_of_def Let_def)

section \<open>Properties of the analysis\<close>

text \<open>
  C1: let the text of the completion be \<open>pre @ json_string @ suf\<close>, where \<open>json_string\<close>
  starts with the first \<open>{\<close> of the text and ends with its last \<open>}\<close>, and let
  \<open>json.loads(json_string)\<close> raise the decode error \<open>e_inner\<close>. Then
  \<open>analyze_transcript\<close> parses \<open>json_string\<close> without its last character, without
  its last two characters and so on:
  \<^item> it returns the value of the longest prefix of \<open>json_string\<close> that parses;
  \<^item> more generally, at the longest prefix on which \<open>json.loads\<close> does not
    raise a decode error it stops, with the value parsed or, when another exception is
    raised there, with the record \<open>{"error": str(e)}\<close> of that exception;
  \<^item> when every prefix raises a decode error, it returns an error record that carries
    \<open>e_inner\<close>, the decode error of the whole of \<open>json_string\<close>, which is the first
    one raised and not the last.
  In each case \<open>analyze_transcript\<close> returns a value.
\<close>

theorem recovery_trims_to_longest_prefix:
  fixes env :: env and transcript :: ustr and w :: world and pre mid suf :: ustr
  defines "json_string \<equiv> [ord CHR ''{''] @ mid @ [ord CHR ''}'']"
  assumes llm: "generate_content env (analysis_prompt transcript) = Inr (pre @ json_string @ suf)"
    and pre: "ord CHR ''{'' \<notin> set pre" and suf: "ord CHR ''}'' \<notin> set suf"
    and first: "loads (max_str_digits env) (max_depth env) json_string = Inl e_inner"
      "exn_class e_inner = JSONDecodeError"
  shows "(0 < k \<and> k \<le> length json_string
            \<and> loads (max_str_digits env) (max_depth env) (take k json_string) = Inr v
            \<and> (\<forall>j. k < j \<and> j \<le> length json_string
                  \<longrightarrow> isl (loads (max_str_digits env) (max_depth env) (take j json_string)))
          \<longrightarrow> fst (analyze_transcript env transcript w) = v)
       \<and> (0 < k \<and> k \<le> length json_string
            \<and> \<not> decode_fails env (take k json_string)
            \<and> (\<forall>j. k < j \<and> j \<le> length json_string \<longrightarrow> decode_fails env (take j json_string))
          \<longrightarrow> fst (analyze_transcript env transcript w)
                = (case loads (max_str_digits env) (max_depth env) (take k json_string) of
                     Inr analysis \<Rightarrow> analysis
                   | Inl e \<Rightarrow> JObject [(map of_char ''error'', JString (exn_str e))]))
       \<and> ((\<forall>j. 0 < j \<and> j \<le> length json_string \<longrightarrow> decode_fails env (take j json_string))
          \<longrightarrow> fst (analyze_transcript env transcript w)
                = JObject [(map of_char ''error'',
                            JString (map of_char ''The model's response was not valid JSON after refinement: ''
                                       @ exn_str e_inner))])"
proof -
  have brace: "take 1 json_string = [ord CHR ''{'']" by (simp add: json_string_def)
  have an: "fst (analyze_transcript env transcript w)
              = (case iterative_refinement env json_string of
                   Some (Inr analysis) \<Rightarrow> analysis
                 | Some (Inl e) \<Rightarrow> error_dict (exn_str e)
                 | None \<Rightarrow>
                     error_dict
                       (ustr_of ''The model's response was not valid JSON after refinement: ''
                          @ exn_str e_inner))"
    using analyze_candidate [OF llm [unfolded json_string_def append_assoc] pre suf, of w] first
    by (simp add: json_string_def)
  have general: "fst (analyze_transcript env transcript w)
                = (case loads (max_str_digits env) (max_depth env) (take k json_string) of
                     Inr analysis \<Rightarrow> analysis
                   | Inl e \<Rightarrow> JObject [(map of_char ''error'', JString (exn_str e))])"
    if "0 < k" "k \<le> length json_string" "\<not> decode_fails env (take k json_string)"
       "\<forall>j. k < j \<and> j \<le> length json_string \<longrightarrow> decode_fails env (take j json_string)"
    for k
  proof -
    have "iterative_refinement env json_string
            = Some (loads (max_str_digits env) (max_depth env) (take k json_string))"
      using that by (rule refinement_finds)
    then show ?thesis by (simp add: an error_dict_def ustr_of_def split: sum.splits)
  qed
  have longest: "fst (analyze_transcript env transcript w) = v"
    if k: "0 < k" "k \<le> length json_string"
      and ok: "loads (max_str_digits env) (max_depth env) (take k json_string) = Inr v"
      and later: "\<forall>j. k < j \<and> j \<le> length json_string
                  \<longrightarrow> isl (loads (max_str_digits env) (max_depth env) (take j json_string))"
  proof -
    have "decode_fails env (take j json_string)" if j: "k < j" "j \<le> length json_string" for j
    proof -
      from j(1) have "k \<le> j" by simp
      from loads_prefix_stable [OF brace k(1) this ok] later j
      show ?thesis by (auto simp: decode_fails_def)
    qed
    moreover from ok have "\<not> decode_fails env (take k json_string)"
      by (simp add: decode_fails_def)
    ultimately show ?thesis using general [OF k] ok by simp
  qed
  have exhausted: "fst (analyze_transcript env transcript w)
                = JObject [(map of_char ''error'',
                            JString (map of_char ''The model's response was not valid JSON after refinement: ''
                                       @ exn_str e_inner))]"
    if "\<forall>j. 0 < j \<and> j \<le> length json_string \<longrightarrow> decode_fails env (take j json_string)"
    using refinement_exhausted [OF that] by (simp add: an error_dict_def ustr_of_def)
  from longest general exhausted show ?thesis by blast
qed

theorem recovery_trims_to_longest_prefix_witness:
  \<open>fst (analyze_transcript
          (default_env (\<lambda>v l. Inr []) (\<lambda>p. Inr (map of_char ''Sure: {"a":1} x} bye'')))
          [116] world0)
     = JObject [([97], JInt 1)]
   \<and> fst (analyze_transcript
          (default_env (\<lambda>v l. Inr []) (\<lambda>p. Inr (map of_char ''Sure: {"a" x} bye'')))
          [116] world0)
     = JObject [(map of_char ''error'',
                 JString (map of_char ''The model's response was not valid JSON after refinement: Expecting ':' delimiter: line 1 column 6 (char 5)''))]
   \<and> fst (analyze_transcript
          ((default_env (\<lambda>v l. Inr [])
              (\<lambda>p. Inr (map of_char ''{"a":1111.5 x}'')))
           \<lparr>max_str_digits := 3\<rparr>)
          [116] world0)
     = JObject [(map of_char ''error'',
                 JString (map of_char ''Exceeds the limit (3 digits) for integer string conversion: value has 4 digits; use sys.set_int_max_str_digits() to increase the limit''))]\<close>
proof -
  have a: \<open>fst (analyze_transcript
          (default_env (\<lambda>v l. Inr []) (\<lambda>p. Inr (map of_char ''Sure: {"a":1} x} bye'')))
          [116] world0)
     = JObject [([97], JInt 1)]\<close>
    using recovery_trims_to_longest_prefix [where
        env = \<open>default_env (\<lambda>v l. Inr []) (\<lambda>p. Inr (map of_char ''Sure: {"a":1} x} bye''))\<close>
        and transcript = "[116]" and w = world0
        and pre = \<open>map of_char ''Sure: ''\<close> and mid = \<open>map of_char ''"a":1} x''\<close>
        and suf = \<open>map of_char '' bye''\<close> and k = 8 and v = "JObject [([97], JInt 1)]"
        and e_inner = "Exn JSONDecodeError (map of_char ''Extra data: line 1 column 9 (char 8)'')"]
    by (simp add: all_nat_between default_env_def json_eval)
  have b: \<open>fst (analyze_transcript
          (default_env (\<lambda>v l. Inr []) (\<lambda>p. Inr (map of_char ''Sure: {"a" x} bye'')))
          [116] world0)
     = JObject [(map of_char ''error'',
                 JString (map of_char ''The model's response was not valid JSON after refinement: Expecting ':' delimiter: line 1 column 6 (char 5)''))]\<close>
    using recovery_trims_to_longest_prefix [where
        env = \<open>default_env (\<lambda>v l. Inr []) (\<lambda>p. Inr (map of_char ''Sure: {"a" x} bye''))\<close>
        and transcript = "[116]" and w = world0
        and pre = \<open>map of_char ''Sure: ''\<close> and mid = \<open>map of_char ''"a" x''\<close>
        and suf = \<open>map of_char '' bye''\<close> and k = 0
        and e_inner = "Exn JSONDecodeError (map of_char ''Expecting ':' delimiter: line 1 column 6 (char 5)'')"]
    by (simp add: all_nat_between default_env_def decode_fails_def json_eval)
  have c: \<open>fst (analyze_transcript
          ((default_env (\<lambda>v l. Inr [])
              (\<lambda>p. Inr (map of_char ''{"a":1111.5 x}'')))
           \<lparr>max_str_digits := 3\<rparr>)
          [116] world0)
     = JObject [(map of_char ''error'',
                 JString (map of_char ''Exceeds the limit (3 digits) for integer string conversion: value has 4 digits; use sys.set_int_max_str_digits() to increase the limit''))]\<close>
    using recovery_trims_to_longest_prefix [where
        env = \<open>(default_env (\<lambda>v l. Inr [])
              (\<lambda>p. Inr (map of_char ''{"a":1111.5 x}'')))
           \<lparr>max_str_digits := 3\<rparr>\<close>
        and transcript = "[116]" and w = world0
        and pre = \<open>[]\<close> and mid = \<open>map of_char ''"a":1111.5 x''\<close>
        and suf = \<open>[]\<close> and k = 10
        and e_inner = "Exn JSONDecodeError (map of_char ''Expecting ',' delimiter: line 1 column 13 (char 12)'')"]
    by (simp add: all_nat_between default_env_def decode_fails_def json_eval)
  from a b c show ?thesis by (intro conjI)
qed


theorem recovery_error_is_not_the_last_counterexample:
  \<open>fst (analyze_transcript
          (default_env (\<lambda>v l. Inr []) (\<lambda>p. Inr (map of_char ''Sure: {"a" x} bye'')))
          [116] world0)
     = JObject [(map of_char ''error'',
                 JString (map of_char ''The model's response was not valid JSON after refinement: Expecting ':' delimiter: line 1 column 6 (char 5)''))]
   \<and> map exn_str
        (decode_errors
           (default_env (\<lambda>v l. Inr []) (\<lambda>p. Inr (map of_char ''Sure: {"a" x} bye'')))
           (map of_char ''{"a" x}''))
     = [map of_char ''Expecting ':' delimiter: line 1 column 6 (char 5)'',
        map of_char ''Expecting ':' delimiter: line 1 column 6 (char 5)'',
        map of_char ''Expecting ':' delimiter: line 1 column 6 (char 5)'',
        map of_char ''Expecting ':' delimiter: line 1 column 5 (char 4)'',
        map of_char ''Unterminated string starting at: line 1 column 2 (char 1)'',
        map of_char ''Unterminated string starting at: line 1 column 2 (char 1)'',
        map of_char ''Expecting property name enclosed in double quotes: line 1 column 2 (char 1)'']\<close>
  by (simp add: analyze_transcript_def strip_def isspace_def robust_parsing_def str_find_def
        str_rfind_def slice_def iterative_refinement.simps decode_errors.simps error_dict_def
        default_env_def Let_def json_eval)

text \<open>
  C2: when the completion is the text
  \<open>Here is the result: {"summary":"ok"} trailing junk\<close>, \<open>analyze_transcript\<close>
  returns the object \<open>{"summary": "ok"}\<close>: the text from the first \<open>{\<close> to the last
  \<open>}\<close> is \<open>{"summary":"ok"}\<close>, which \<open>json.loads\<close> parses, and nothing is printed
  but the raw response. The interpreter must allow one level of nesting.
\<close>

theorem analyze_transcript_example:
  assumes \<open>generate_content env (analysis_prompt transcript)
             = Inr (map of_char ''Here is the result: {"summary":"ok"} trailing junk'')\<close>
    and "0 < max_depth env"
  shows \<open>fst (analyze_transcript env transcript w)
           = JObject [(map of_char ''summary'', JString (map of_char ''ok''))]
         \<and> loads (max_str_digits env) (max_depth env) (map of_char ''{"summary":"ok"}'')
           = Inr (JObject [(map of_char ''summary'', JString (map of_char ''ok''))])
         \<and> stdout (snd (analyze_transcript env transcript w))
           = stdout w @ [map of_char ''Raw Gemini Response (Analysis):\<newline> Here is the result: {"summary":"ok"} trailing junk'']\<close>
proof -
  define t where \<open>t = ustr_of ''Here is the result: {"summary":"ok"} trailing junk''\<close>
  have l: \<open>loads (max_str_digits env) (max_depth env) (ustr_of ''{"summary":"ok"}'')
             = Inr (JObject [(ustr_of ''summary'', JString (ustr_of ''ok''))])\<close>
    using assms(2)
    by (simp add: loads_def scan_once.simps parse_object.simps object_key_def after_value_def
          scan_atom_def skip_ws_def is_ws_def pos_def ustr_of_def)
  have s: "strip t = t"
    by (simp add: t_def strip_def isspace_def ustr_of_def)
  have f: "str_find t 123 = 20"
    by (simp add: t_def str_find_def ustr_of_def)
  have r: "str_rfind t 125 = 35"
    by (simp add: t_def str_rfind_def ustr_of_def)
  have c: \<open>slice t 20 36 = ustr_of ''{"summary":"ok"}''\<close>
    by (simp add: t_def slice_def ustr_of_def)
  have rp: "robust_parsing env t w1
              = (Inr (JObject [(ustr_of ''summary'', JString (ustr_of ''ok''))]), w1)" for w1
    using l by (simp add: robust_parsing_def Let_def f r c)
  from assms(1) have g: "generate_content env (analysis_prompt transcript) = Inr t"
    by (simp add: t_def ustr_of_def)
  have 1: "fst (analyze_transcript env transcript w)
             = JObject [(ustr_of ''summary'', JString (ustr_of ''ok''))]"
    using g by (simp add: analyze_transcript_def Let_def s rp)
  have 2: "stdout (snd (analyze_transcript env transcript w))
             = stdout w @ [ustr_of ''Raw Gemini Response (Analysis):\<newline> '' @ t]"
    using g by (simp add: analyze_transcript_def Let_def s rp print_def send_def)
  from 1 l 2 show ?thesis
    unfolding t_def ustr_of_def by simp
qed

theorem analyze_transcript_example_witness:
  \<open>fst (analyze_transcript
          (default_env (\<lambda>v l. Inr [])
             (\<lambda>p. Inr (map of_char ''Here is the result: {"summary":"ok"} trailing junk'')))
          [116] world0)
     = JObject [([115, 117, 109, 109, 97, 114, 121], JString [111, 107])]\<close>
  using analyze_transcript_example [of
      \<open>default_env (\<lambda>v l. Inr [])
         (\<lambda>p. Inr (map of_char ''Here is the result: {"summary":"ok"} trailing junk''))\<close>
      "[116]" world0]
  by (simp add: default_env_def)

text \<open>
  C3: when the text of the completion has no \<open>{\<close>, or no \<open>}\<close>, or every \<open>{\<close> of it
  comes after every \<open>}\<close> of it, \<open>analyze_transcript\<close> returns the record
  \<open>{"error": "The model's response did not contain valid JSON."}\<close>, and what it prints
  is the raw response and then the line that no boundaries were found.
\<close>

theorem analyze_transcript_no_boundaries:
  assumes "generate_content env (analysis_prompt transcript) = Inr raw"
    and "ord CHR ''{'' \<notin> set raw \<or> ord CHR ''}'' \<notin> set raw
         \<or> (\<forall>i j. i < length raw \<and> j < length raw
                 \<and> raw ! i = ord CHR ''{'' \<and> raw ! j = ord CHR ''}'' \<longrightarrow> j < i)"
  shows "fst (analyze_transcript env transcript w)
           = JObject [(map of_char ''error'',
                       JString (map of_char ''The model's response did not contain valid JSON.''))]
         \<and> (\<exists>shown. stdout (snd (analyze_transcript env transcript w))
               = stdout w @ [shown,
                   map of_char ''Could not find valid JSON boundaries in the raw response.''])"
proof -
  define t where "t = strip raw"
  obtain p q where raw: "raw = p @ t @ q"
    using strip_decomp [of raw] unfolding t_def by blast
  have no: "\<not> (str_find t (ord CHR ''{'') \<noteq> - 1 \<and> str_rfind t (ord CHR ''}'') \<noteq> - 1
               \<and> str_find t (ord CHR ''{'') < str_rfind t (ord CHR ''}''))"
  proof
    assume a: "str_find t (ord CHR ''{'') \<noteq> - 1 \<and> str_rfind t (ord CHR ''}'') \<noteq> - 1
               \<and> str_find t (ord CHR ''{'') < str_rfind t (ord CHR ''}'')"
    then have m: "ord CHR ''{'' \<in> set t" "ord CHR ''}'' \<in> set t"
      by (simp_all add: str_find_absent str_rfind_absent)
    define i where "i = nat (str_find t (ord CHR ''{''))"
    define j where "j = nat (str_rfind t (ord CHR ''}''))"
    have i: "i < length t" "t ! i = ord CHR ''{''"
      unfolding i_def using str_find_nth [OF m(1)] by simp_all
    have j: "j < length t" "t ! j = ord CHR ''}''"
      unfolding j_def using str_rfind_nth [OF m(2)] by simp_all
    have ij: "i < j"
    proof -
      have "0 \<le> str_find t (ord CHR ''{'')" using m(1) by (simp add: str_find_def)
      with a show ?thesis unfolding i_def j_def by simp
    qed
    have ri: "raw ! (length p + i) = ord CHR ''{''" "length p + i < length raw"
      using i by (simp_all add: raw nth_append)
    have rj: "raw ! (length p + j) = ord CHR ''}''" "length p + j < length raw"
      using j by (simp_all add: raw nth_append)
    from assms(2) show False
    proof (elim disjE)
      assume "ord CHR ''{'' \<notin> set raw"
      with m(1) show False by (simp add: raw)
    next
      assume "ord CHR ''}'' \<notin> set raw"
      with m(2) show False by (simp add: raw)
    next
      assume "\<forall>i j. i < length raw \<and> j < length raw
                 \<and> raw ! i = ord CHR ''{'' \<and> raw ! j = ord CHR ''}'' \<longrightarrow> j < i"
      with ri rj have "length p + j < length p + i" by blast
      with ij show False by simp
    qed
  qed
  have rp: "robust_parsing env t w1
              = (Inr (error_dict (ustr_of ''The model's response did not contain valid JSON.'')),
                 print (ustr_of ''Could not find valid JSON boundaries in the raw response.'') w1)"
    for w1
    using no unfolding robust_parsing_def Let_def by (simp only: if_False)
  have 1: "fst (analyze_transcript env transcript w)
             = error_dict (ustr_of ''The model's response did not contain valid JSON.'')"
    using assms(1) by (simp add: analyze_transcript_def Let_def rp flip: t_def)
  have 2: "stdout (snd (analyze_transcript env transcript w))
             = stdout w @ [ustr_of ''Raw Gemini Response (Analysis):\<newline> '' @ t,
                           ustr_of ''Could not find valid JSON boundaries in the raw response.'']"
    using assms(1)
    by (simp add: analyze_transcript_def Let_def rp print_def send_def flip: t_def)
  from 1 2 show ?thesis
    unfolding error_dict_def ustr_of_def by blast
qed

lemma braces_reversed:
  assumes "c \<notin> set a" and "d \<notin> set b"
  shows "\<forall>i j. i < length (a @ b) \<and> j < length (a @ b) \<and> (a @ b) ! i = c \<and> (a @ b) ! j = d
           \<longrightarrow> j < i"
proof (intro allI impI)
  fix i j
  assume h: "i < length (a @ b) \<and> j < length (a @ b) \<and> (a @ b) ! i = c \<and> (a @ b) ! j = d"
  have "\<not> i < length a"
  proof
    assume "i < length a"
    with h have "a ! i = c" by (simp add: nth_append)
    with \<open>i < length a\<close> assms(1) show False by (metis nth_mem)
  qed
  moreover have "j < length a"
  proof (rule ccontr)
    assume n: "\<not> j < length a"
    with h have "b ! (j - length a) = d" "j - length a < length b" by (auto simp: nth_append)
    with assms(2) show False by (metis nth_mem)
  qed
  ultimately show "j < i" by simp
qed

theorem analyze_transcript_no_boundaries_witness:
  \<open>fst (analyze_transcript
          (default_env (\<lambda>v l. Inr [])
             (\<lambda>p. Inr (map of_char '' I cannot } summarise '' @ map of_char ''{ this. '')))
          [116] world0)
     = JObject [(map of_char ''error'',
                 JString (map of_char ''The model's response did not contain valid JSON.''))]
   \<and> fst (analyze_transcript
          (default_env (\<lambda>v l. Inr []) (\<lambda>p. Inr (map of_char ''{"summary": "cut off'')))
          [116] world0)
     = JObject [(map of_char ''error'',
                 JString (map of_char ''The model's response did not contain valid JSON.''))]
   \<and> fst (analyze_transcript
          (default_env (\<lambda>v l. Inr []) (\<lambda>p. Inr (map of_char ''no object here}'')))
          [116] world0)
     = JObject [(map of_char ''error'',
                 JString (map of_char ''The model's response did not contain valid JSON.''))]\<close>
proof -
  have g: "generate_content (default_env (\<lambda>v l. Inr []) (\<lambda>p. Inr raw)) (analysis_prompt [116])
             = Inr raw" for raw
    by (simp add: default_env_def)
  have 1: "ord CHR ''{'' \<notin> set (map of_char '' I cannot } summarise '' :: ustr)" by simp
  have 2: "ord CHR ''}'' \<notin> set (map of_char ''{ this. '' :: ustr)" by simp
  have 3: \<open>ord CHR ''}'' \<notin> set (map of_char ''{"summary": "cut off'' :: ustr)\<close> by simp
  have 4: "ord CHR ''{'' \<notin> set (map of_char ''no object here}'' :: ustr)" by simp
  note a = analyze_transcript_no_boundaries
             [OF g disjI2 [OF disjI2 [OF braces_reversed [OF 1 2]]], of world0, THEN conjunct1]
  note b = analyze_transcript_no_boundaries [OF g disjI2 [OF disjI1 [OF 3]], of world0, THEN conjunct1]
  note c = analyze_transcript_no_boundaries [OF g disjI1 [OF 4], of world0, THEN conjunct1]
  from a b c show ?thesis by (intro conjI)
qed

text \<open>
  C10: a value that \<open>analyze_transcript\<close> returns is an object, never a list, a string,
  a number, a boolean or \<open>None\<close>. The reason is that a text that starts with \<open>{\<close> and
  that \<open>json.loads\<close> parses, parses to an object, and that every text the recovery
  parses starts with the first \<open>{\<close> of the completion: when the value is not an error
  record, it is the value of \<open>{\<close> followed by a prefix of what follows that \<open>{\<close> up to
  the last \<open>}\<close>.
\<close>

theorem recovered_value_is_object:
  "(\<exists>kvs. fst (analyze_transcript env transcript w) = JObject kvs)
   \<and> (fst (robust_parsing env raw_text w) = Inr v \<longrightarrow> (\<exists>kvs. v = JObject kvs))
   \<and> (loads mx d (ord CHR ''{'' # rest) = Inr v \<longrightarrow> (\<exists>kvs. v = JObject kvs))
   \<and> (generate_content env (analysis_prompt transcript)
         = Inr (pre @ [ord CHR ''{''] @ mid @ [ord CHR ''}''] @ suf)
       \<and> ord CHR ''{'' \<notin> set pre \<and> ord CHR ''}'' \<notin> set suf
      \<longrightarrow> (\<exists>k. loads (max_str_digits env) (max_depth env)
                  (ord CHR ''{'' # take k (mid @ [ord CHR ''}'']))
                = Inr (fst (analyze_transcript env transcript w)))
          \<or> (\<exists>message. fst (analyze_transcript env transcript w)
                = JObject [(map of_char ''error'', JString message)]))"
proof -
  have 3: "\<exists>kvs. v = JObject kvs" if "loads mx d (ord CHR ''{'' # rest) = Inr v" for mx d rest v
    using loads_brace_is_object [of "ord CHR ''{'' # rest" mx d v] that by simp
  have 4: "(\<exists>k. loads (max_str_digits env) (max_depth env)
                  (ord CHR ''{'' # take k (mid @ [ord CHR ''}'']))
                = Inr (fst (analyze_transcript env transcript w)))
          \<or> (\<exists>message. fst (analyze_transcript env transcript w)
                = JObject [(map of_char ''error'', JString message)])"
    if llm: "generate_content env (analysis_prompt transcript)
         = Inr (pre @ [ord CHR ''{''] @ mid @ [ord CHR ''}''] @ suf)"
      and pre: "ord CHR ''{'' \<notin> set pre" and suf: "ord CHR ''}'' \<notin> set suf"
  proof -
    define js where "js = [ord CHR ''{''] @ mid @ [ord CHR ''}'']"
    note an = analyze_candidate [OF llm pre suf, of w, folded js_def]
    have err: "\<exists>message. error_dict m = JObject [(map of_char ''error'', JString message)]" for m
      by (simp add: error_dict_def ustr_of_def)
    show ?thesis
    proof (cases "loads (max_str_digits env) (max_depth env) js")
      case (Inr a)
      with an have "fst (analyze_transcript env transcript w) = a" by simp
      with Inr have "loads (max_str_digits env) (max_depth env)
                       (ord CHR ''{'' # take (length mid + 1) (mid @ [ord CHR ''}'']))
                     = Inr (fst (analyze_transcript env transcript w))"
        by (simp add: js_def)
      then show ?thesis by blast
    next
      case (Inl e_inner)
      show ?thesis
      proof (cases "exn_class e_inner = JSONDecodeError")
        case False
        with Inl an err show ?thesis by simp
      next
        case True
        show ?thesis
        proof (cases "iterative_refinement env js")
          case None
          with Inl True an err show ?thesis by simp
        next
          case (Some r)
          show ?thesis
          proof (cases r)
            case (Inl e)
            with Some \<open>loads (max_str_digits env) (max_depth env) js = Inl e_inner\<close> True an err
            show ?thesis by simp
          next
            case (Inr a)
            with Some \<open>loads (max_str_digits env) (max_depth env) js = Inl e_inner\<close> True an
            have fa: "fst (analyze_transcript env transcript w) = a" by simp
            from refinement_prefix [OF Some] Inr obtain k where
              k: "0 < k" "loads (max_str_digits env) (max_depth env) (take k js) = Inr a"
              by auto
            from k(1) obtain k' where "k = Suc k'" by (cases k) auto
            with k(2) have "loads (max_str_digits env) (max_depth env)
                              (ord CHR ''{'' # take k' (mid @ [ord CHR ''}''])) = Inr a"
              by (simp add: js_def)
            with fa show ?thesis by blast
          qed
        qed
      qed
    qed
  qed
  from analyze_transcript_is_object [of env transcript w]
    robust_parsing_is_object [of env raw_text w v] 3 [of mx d rest v] 4
  show ?thesis by blast
qed

theorem recovered_value_is_object_witness:
  \<open>fst (robust_parsing (default_env (\<lambda>v l. Inr []) (\<lambda>p. Inr []))
          (map of_char ''Sure: {"a":[1]} x} bye'') world0)
     = Inr (JObject [([97], JArray [JInt 1])])
   \<and> (\<exists>kvs. JObject [([97], JArray [JInt 1])] = JObject kvs)
   \<and> loads 4300 1000 (map of_char ''{"b":{}} '') = Inr (JObject [([98], JObject [])])
   \<and> (\<exists>kvs. fst (analyze_transcript
                   (default_env (\<lambda>v l. Inr []) (\<lambda>p. Inr (map of_char ''[1, {"a":2}, 3]'')))
                   [116] world0) = JObject kvs)\<close>
proof -
  have e: \<open>fst (robust_parsing (default_env (\<lambda>v l. Inr []) (\<lambda>p. Inr []))
          (map of_char ''Sure: {"a":[1]} x} bye'') world0)
     = Inr (JObject [([97], JArray [JInt 1])])\<close>
    by (simp add: robust_parsing_def str_find_def str_rfind_def slice_def
          iterative_refinement.simps default_env_def Let_def json_eval)
  have l: \<open>loads 4300 1000 (ord CHR ''{'' # map of_char ''"b":{}} '')
             = Inr (JObject [([98], JObject [])])\<close>
    by (simp add: json_eval)
  from recovered_value_is_object [of
      \<open>default_env (\<lambda>v l. Inr []) (\<lambda>p. Inr (map of_char ''[1, {"a":2}, 3]''))\<close> "[116]" world0
      \<open>map of_char ''Sure: {"a":[1]} x} bye''\<close> "JObject [([97], JArray [JInt 1])]"
      4300 1000 \<open>map of_char ''"b":{}} ''\<close>] e l
  show ?thesis by (simp add: robust_parsing_fst_world [of _ _ world0])
qed

section \<open>Properties of the handler of \<open>/\<close>\<close>

text \<open>
  C4: let the request be a \<open>POST\<close> whose URL gives a video id, and let \<open>t\<close> be the
  transcript that the handler found, the English one or else the Hindi one. The handler
  renders \<open>result.html\<close> with the value that \<open>analyze_transcript\<close> returns for \<open>t\<close>,
  unless that value is the empty object \<open>{}\<close>: then it answers with the text
  \<open>Error analyzing the transcript using Google Gemini API.\<close> and status 500. An error
  record is not empty, so it is rendered; the value is \<open>{}\<close> only when the completion
  returned a text.
\<close>

theorem index_renders_analysis_unless_empty:
  assumes "http_method req = ''POST''"
    and "extract_video_id env (form req ''video_url'') = Inr (Some video_id)"
    and "video_id \<noteq> []"
    and "fst (get_transcript env video_id (map of_char ''en'') w) = Some t
         \<or> (fst (get_transcript env video_id (map of_char ''en'') w) = None
              \<or> fst (get_transcript env video_id (map of_char ''en'') w) = Some [])
            \<and> fst (get_transcript env video_id (map of_char ''hi'') w) = Some t"
    and "t \<noteq> []"
  shows "fst (index env req w)
           = Inr (if fst (analyze_transcript env t w) = JObject []
                  then Text (map of_char ''Error analyzing the transcript using Google Gemini API.'') 500
                  else Html ''result.html'' [(''analysis'', fst (analyze_transcript env t w))])
         \<and> (generate_content env (analysis_prompt t) = Inl e \<longrightarrow>
              fst (index env req w)
                = Inr (Html ''result.html''
                         [(''analysis'', JObject [(map of_char ''error'', JString (exn_str e))])]))
         \<and> (fst (analyze_transcript env t w) = JObject [] \<longrightarrow>
              (\<exists>raw. generate_content env (analysis_prompt t) = Inr raw))"
proof -
  obtain en w1 where en: "get_transcript env video_id (ustr_of ''en'') w = (en, w1)"
    by (cases "get_transcript env video_id (ustr_of ''en'') w")
  obtain hi w2 where hi: "get_transcript env video_id (ustr_of ''hi'') w1 = (hi, w2)"
    by (cases "get_transcript env video_id (ustr_of ''hi'') w1")
  have hi': "fst (get_transcript env video_id (ustr_of ''hi'') w) = hi"
    using hi get_transcript_fst_world [of env video_id "ustr_of ''hi''" w w1] by simp
  have a: "fst (analyze_transcript env t w') = fst (analyze_transcript env t w)" for w'
    by (rule analyze_transcript_fst_world)
  have main: "fst (index env req w)
           = Inr (if fst (analyze_transcript env t w) = JObject []
                  then Text (map of_char ''Error analyzing the transcript using Google Gemini API.'') 500
                  else Html ''result.html'' [(''analysis'', fst (analyze_transcript env t w))])"
  proof (cases "en = Some t")
    case True
    obtain an w3 where an: "analyze_transcript env t w1 = (an, w3)"
      by (cases "analyze_transcript env t w1")
    with a [of w1] have "fst (analyze_transcript env t w) = an" by simp
    with True en an assms(5) show ?thesis
      by (simp add: index_with_id [OF assms(1-3)] ustr_of_def)
  next
    case False
    with assms(4) en hi' have e: "en = None \<or> en = Some []" and h: "hi = Some t"
      by (auto simp: ustr_of_def)
    obtain an w3 where an: "analyze_transcript env t w2 = (an, w3)"
      by (cases "analyze_transcript env t w2")
    with a [of w2] have "fst (analyze_transcript env t w) = an" by simp
    with e h en hi an assms(5) show ?thesis
      by (auto simp: index_with_id [OF assms(1-3)] ustr_of_def)
  qed
  have err: "fst (analyze_transcript env t w) = JObject [(map of_char ''error'', JString (exn_str e))]"
    if "generate_content env (analysis_prompt t) = Inl e"
    using that by (simp add: analyze_transcript_def error_dict_def ustr_of_def)
  have 2: "fst (index env req w)
                = Inr (Html ''result.html''
                         [(''analysis'', JObject [(map of_char ''error'', JString (exn_str e))])])"
    if "generate_content env (analysis_prompt t) = Inl e"
    using main err that by simp
  have 3: "\<exists>raw. generate_content env (analysis_prompt t) = Inr raw"
    if "fst (analyze_transcript env t w) = JObject []"
  proof (cases "generate_content env (analysis_prompt t)")
    case (Inl e')
    then have "fst (analyze_transcript env t w) \<noteq> JObject []"
      by (simp add: analyze_transcript_def error_dict_def)
    with that show ?thesis by simp
  next
    case (Inr raw)
    then show ?thesis by blast
  qed
  from main 2 3 show ?thesis by blast
qed

theorem index_renders_analysis_unless_empty_witness:
  \<open>fst (index
          (default_env (\<lambda>v l. Inr [\<lparr>item_text = [104, 105]\<rparr>])
             (\<lambda>p. Inl (Exn OtherException [113, 117, 111, 116, 97])))
          \<lparr>http_method = ''POST'', form = [''video_url'' \<mapsto> ''https://youtu.be/abc''],
           json_data = Map.empty\<rparr>
          world0)
     = Inr (Html ''result.html''
              [(''analysis'', JObject [(map of_char ''error'', JString [113, 117, 111, 116, 97])])])
   \<and> fst (index
          (default_env (\<lambda>v l. if l = [[104, 105]] then Inr [\<lparr>item_text = [104, 105]\<rparr>] else Inr [])
             (\<lambda>p. Inr (map of_char ''{"summary":"ok"}'')))
          \<lparr>http_method = ''POST'', form = [''video_url'' \<mapsto> ''https://youtu.be/abc''],
           json_data = Map.empty\<rparr>
          world0)
     = Inr (Html ''result.html''
              [(''analysis'', JObject [(map of_char ''summary'', JString [111, 107])])])\<close>
proof -
  have a: \<open>fst (index
          (default_env (\<lambda>v l. Inr [\<lparr>item_text = [104, 105]\<rparr>])
             (\<lambda>p. Inl (Exn OtherException [113, 117, 111, 116, 97])))
          \<lparr>http_method = ''POST'', form = [''video_url'' \<mapsto> ''https://youtu.be/abc''],
           json_data = Map.empty\<rparr>
          world0)
     = Inr (Html ''result.html''
              [(''analysis'', JObject [(map of_char ''error'', JString [113, 117, 111, 116, 97])])])\<close>
    using index_renders_analysis_unless_empty [of
        "\<lparr>http_method = ''POST'', form = [''video_url'' \<mapsto> ''https://youtu.be/abc''],
          json_data = Map.empty\<rparr>"
        "default_env (\<lambda>v l. Inr [\<lparr>item_text = [104, 105]\<rparr>])
             (\<lambda>p. Inl (Exn OtherException [113, 117, 111, 116, 97]))"
        "[97, 98, 99]" world0 "[104, 105]" "Exn OtherException [113, 117, 111, 116, 97]"]
    by (simp add: get_transcript_def default_env_def analyze_transcript_def error_dict_def
          url_eval)
  have b: \<open>fst (index
          (default_env (\<lambda>v l. if l = [[104, 105]] then Inr [\<lparr>item_text = [104, 105]\<rparr>] else Inr [])
             (\<lambda>p. Inr (map of_char ''{"summary":"ok"}'')))
          \<lparr>http_method = ''POST'', form = [''video_url'' \<mapsto> ''https://youtu.be/abc''],
           json_data = Map.empty\<rparr>
          world0)
     = Inr (Html ''result.html''
              [(''analysis'', JObject [(map of_char ''summary'', JString [111, 107])])])\<close>
    using index_renders_analysis_unless_empty [of
        "\<lparr>http_method = ''POST'', form = [''video_url'' \<mapsto> ''https://youtu.be/abc''],
          json_data = Map.empty\<rparr>"
        \<open>default_env (\<lambda>v l. if l = [[104, 105]] then Inr [\<lparr>item_text = [104, 105]\<rparr>] else Inr [])
             (\<lambda>p. Inr (map of_char ''{"summary":"ok"}''))\<close>
        "[97, 98, 99]" world0 "[104, 105]"]
    by (simp add: get_transcript_def default_env_def analyze_transcript_def strip_def
          isspace_def robust_parsing_def str_find_def str_rfind_def slice_def json_eval url_eval)
  from a b show ?thesis by (rule conjI)
qed

theorem index_empty_analysis_counterexample:
  \<open>fst (analyze_transcript
          (default_env (\<lambda>v l. Inr [\<lparr>item_text = [104, 105]\<rparr>]) (\<lambda>p. Inr (map of_char ''{}'')))
          [104, 105] world0)
     = JObject []
   \<and> fst (index
          (default_env (\<lambda>v l. Inr [\<lparr>item_text = [104, 105]\<rparr>]) (\<lambda>p. Inr (map of_char ''{}'')))
          \<lparr>http_method = ''POST'', form = [''video_url'' \<mapsto> ''https://youtu.be/abc''],
           json_data = Map.empty\<rparr>
          world0)
     = Inr (Text (map of_char ''Error analyzing the transcript using Google Gemini API.'') 500)\<close>
  by (simp add: index_def get_transcript_def not_str_def analyze_transcript_def strip_def
        isspace_def robust_parsing_def str_find_def str_rfind_def slice_def default_env_def
        print_def send_def json_eval url_eval)

text \<open>
  C8: let the request be a \<open>POST\<close> whose URL gives a video id. The handler asks the
  transcript service for the English transcript first. It asks once more, for the Hindi
  transcript, exactly when \<open>get_transcript\<close> returned \<open>None\<close> or the empty text for
  English, and it asks for nothing else: the requests it sends are the English one, the
  Hindi one in that case, and the completion for the transcript it found, if it found
  one. When it found no English text and a Hindi text \<open>t\<close>, its response is the one
  that the analysis of \<open>t\<close> gives, whatever made the English request fail.
\<close>

theorem index_language_fallback:
  fixes env :: env and req :: request and w :: world and video_id :: ustr
  defines "en \<equiv> fst (get_transcript env video_id (map of_char ''en'') w)"
    and "hi \<equiv> fst (get_transcript env video_id (map of_char ''hi'') w)"
  assumes "http_method req = ''POST''"
    and "extract_video_id env (form req ''video_url'') = Inr (Some video_id)"
    and "video_id \<noteq> []"
  shows "requests (snd (index env req w))
           = requests w
             @ [TranscriptRequest video_id [map of_char ''en'']]
             @ (if en = None \<or> en = Some []
                then [TranscriptRequest video_id [map of_char ''hi'']] else [])
             @ (case (if en = None \<or> en = Some [] then hi else en) of
                  None \<Rightarrow> []
                | Some t \<Rightarrow> if t = [] then [] else [CompletionRequest (analysis_prompt t)])
         \<and> ((en = None \<or> en = Some []) \<and> hi = Some t \<and> t \<noteq> [] \<longrightarrow>
              fst (index env req w)
                = Inr (if fst (analyze_transcript env t w) = JObject []
                       then Text (map of_char ''Error analyzing the transcript using Google Gemini API.'') 500
                       else Html ''result.html'' [(''analysis'', fst (analyze_transcript env t w))]))
         \<and> ((en = None \<or> en = Some []) \<and> (hi = None \<or> hi = Some []) \<longrightarrow>
              fst (index env req w)
                = Inr (Text (map of_char ''Unable to extract transcript from the video. It may be unavailable in the specified languages.'') 500))"
proof -
  obtain e w1 where e: "get_transcript env video_id (ustr_of ''en'') w = (e, w1)"
    by (cases "get_transcript env video_id (ustr_of ''en'') w")
  obtain h w2 where h: "get_transcript env video_id (ustr_of ''hi'') w1 = (h, w2)"
    by (cases "get_transcript env video_id (ustr_of ''hi'') w1")
  have en: "en = e" using e by (simp add: en_def ustr_of_def)
  have hi: "hi = h"
    using h get_transcript_fst_world [of env video_id "ustr_of ''hi''" w w1]
    by (simp add: hi_def ustr_of_def)
  have r1: "requests w1 = requests w @ [TranscriptRequest video_id [map of_char ''en'']]"
    using get_transcript_requests [of env video_id "ustr_of ''en''" w] e
    by (simp add: ustr_of_def)
  have r2: "requests w2 = requests w1 @ [TranscriptRequest video_id [map of_char ''hi'']]"
    using get_transcript_requests [of env video_id "ustr_of ''hi''" w1] h
    by (simp add: ustr_of_def)
  have a: "fst (analyze_transcript env t w') = fst (analyze_transcript env t w)" for t w'
    by (rule analyze_transcript_fst_world)
  have ra: "requests (snd (analyze_transcript env t w'))
              = requests w' @ [CompletionRequest (analysis_prompt t)]" for t w'
    by (rule analyze_transcript_requests)
  note ix = index_with_id [OF assms(3-5), of w, unfolded e prod.case]
  show ?thesis
  proof (cases "e = None \<or> e = Some []")
    case True
    show ?thesis
    proof (cases "h = None \<or> h = Some []")
      case h0: True
      with True show ?thesis
        unfolding ix en hi using r1 r2 h by (auto simp: ustr_of_def)
    next
      case False
      then obtain t' where t': "h = Some t'" "t' \<noteq> []" by (cases h) auto
      obtain an w3 where an: "analyze_transcript env t' w2 = (an, w3)"
        by (cases "analyze_transcript env t' w2")
      from an a [of t' w2] have fa: "fst (analyze_transcript env t' w) = an" by simp
      from an ra [of t' w2] have rq: "requests w3 = requests w2 @ [CompletionRequest (analysis_prompt t')]"
        by simp
      from True t' show ?thesis
        unfolding ix en hi using r1 r2 h an fa rq by (auto simp: ustr_of_def)
    qed
  next
    case False
    then obtain t' where t': "e = Some t'" "t' \<noteq> []" by (cases e) auto
    obtain an w3 where an: "analyze_transcript env t' w1 = (an, w3)"
      by (cases "analyze_transcript env t' w1")
    from an ra [of t' w1] have rq: "requests w3 = requests w1 @ [CompletionRequest (analysis_prompt t')]"
      by simp
    from t' show ?thesis
      unfolding ix en hi using r1 an rq by (auto simp: ustr_of_def)
  qed
qed

theorem index_language_fallback_witness:
  \<open>index
     (default_env
        (\<lambda>v l. if l = [map of_char ''hi''] then Inr [\<lparr>item_text = [110, 97]\<rparr>, \<lparr>item_text = [109]\<rparr>]
                else Inl (Exn OtherException (map of_char ''no captions'')))
        (\<lambda>p. Inr (map of_char ''{"summary":"ok"}'')))
     \<lparr>http_method = ''POST'', form = [''video_url'' \<mapsto> ''https://youtu.be/abc''],
      json_data = Map.empty\<rparr>
     world0
   = (Inr (Html ''result.html''
             [(''analysis'', JObject [(map of_char ''summary'', JString [111, 107])])]),
      \<lparr>stdout = [map of_char ''Error fetching transcript: no captions'',
                 map of_char ''Raw Gemini Response (Analysis):\<newline> {"summary":"ok"}''],
       requests = [TranscriptRequest [97, 98, 99] [[101, 110]],
                   TranscriptRequest [97, 98, 99] [[104, 105]],
                   CompletionRequest (analysis_prompt [110, 97, 32, 109])]\<rparr>)
   \<and> requests (snd (index
        (default_env (\<lambda>v l. Inr [\<lparr>item_text = [104, 105]\<rparr>]) (\<lambda>p. Inl (Exn OtherException [113])))
        \<lparr>http_method = ''POST'', form = [''video_url'' \<mapsto> ''https://youtu.be/abc''],
         json_data = Map.empty\<rparr>
        world0))
   = [TranscriptRequest [97, 98, 99] [[101, 110]], CompletionRequest (analysis_prompt [104, 105])]\<close>
proof -
  have a: \<open>index
     (default_env
        (\<lambda>v l. if l = [map of_char ''hi''] then Inr [\<lparr>item_text = [110, 97]\<rparr>, \<lparr>item_text = [109]\<rparr>]
                else Inl (Exn OtherException (map of_char ''no captions'')))
        (\<lambda>p. Inr (map of_char ''{"summary":"ok"}'')))
     \<lparr>http_method = ''POST'', form = [''video_url'' \<mapsto> ''https://youtu.be/abc''],
      json_data = Map.empty\<rparr>
     world0
   = (Inr (Html ''result.html''
             [(''analysis'', JObject [(map of_char ''summary'', JString [111, 107])])]),
      \<lparr>stdout = [map of_char ''Error fetching transcript: no captions'',
                 map of_char ''Raw Gemini Response (Analysis):\<newline> {"summary":"ok"}''],
       requests = [TranscriptRequest [97, 98, 99] [[101, 110]],
                   TranscriptRequest [97, 98, 99] [[104, 105]],
                   CompletionRequest (analysis_prompt [110, 97, 32, 109])]\<rparr>)\<close>
    using index_language_fallback [of
        "\<lparr>http_method = ''POST'', form = [''video_url'' \<mapsto> ''https://youtu.be/abc''],
          json_data = Map.empty\<rparr>"
        \<open>default_env
           (\<lambda>v l. if l = [map of_char ''hi''] then Inr [\<lparr>item_text = [110, 97]\<rparr>, \<lparr>item_text = [109]\<rparr>]
                   else Inl (Exn OtherException (map of_char ''no captions'')))
           (\<lambda>p. Inr (map of_char ''{"summary":"ok"}''))\<close>
        "[97, 98, 99]" world0 "[110, 97, 32, 109]"]
    by (simp add: index_def get_transcript_def not_str_def analyze_transcript_def strip_def
          isspace_def robust_parsing_def str_find_def str_rfind_def slice_def default_env_def
          world0_def print_def send_def json_eval url_eval)
  have b: \<open>requests (snd (index
        (default_env (\<lambda>v l. Inr [\<lparr>item_text = [104, 105]\<rparr>]) (\<lambda>p. Inl (Exn OtherException [113])))
        \<lparr>http_method = ''POST'', form = [''video_url'' \<mapsto> ''https://youtu.be/abc''],
         json_data = Map.empty\<rparr>
        world0))
   = [TranscriptRequest [97, 98, 99] [[101, 110]], CompletionRequest (analysis_prompt [104, 105])]\<close>
    using index_language_fallback [of
        "\<lparr>http_method = ''POST'', form = [''video_url'' \<mapsto> ''https://youtu.be/abc''],
          json_data = Map.empty\<rparr>"
        \<open>default_env (\<lambda>v l. Inr [\<lparr>item_text = [104, 105]\<rparr>]) (\<lambda>p. Inl (Exn OtherException [113]))\<close>
        "[97, 98, 99]" world0]
    by (simp add: get_transcript_def default_env_def world0_def url_eval)
  from a b show ?thesis by (rule conjI)
qed

theorem index_retries_after_empty_english_counterexample:
  \<open>fst (get_transcript
          (default_env
             (\<lambda>v l. if l = [map of_char ''en''] then Inr [] else Inr [\<lparr>item_text = [110, 97]\<rparr>])
             (\<lambda>p. Inl (Exn OtherException [113])))
          [97, 98, 99] (map of_char ''en'') world0)
     = Some []
   \<and> requests (snd (index
        (default_env
           (\<lambda>v l. if l = [map of_char ''en''] then Inr [] else Inr [\<lparr>item_text = [110, 97]\<rparr>])
           (\<lambda>p. Inl (Exn OtherException [113])))
        \<lparr>http_method = ''POST'', form = [''video_url'' \<mapsto> ''https://youtu.be/abc''],
         json_data = Map.empty\<rparr>
        world0))
     = [TranscriptRequest [97, 98, 99] [[101, 110]],
        TranscriptRequest [97, 98, 99] [[104, 105]],
        CompletionRequest (analysis_prompt [110, 97])]\<close>
  by (simp add: index_def get_transcript_def not_str_def analyze_transcript_def
        default_env_def world0_def print_def send_def url_eval)

end
